theory Spec2Isabelle
  imports Main
begin

text \<open>
  A shallow embedding of the segment tree of \<^verbatim>\<open>SegmentTree.hh\<close>: the class
  \<^verbatim>\<open>SegmentTree<BaseT, QueryT, LazyPropogation>\<close> with its private recursions and its public
  constructors, queries and updates. The query type \<open>'q\<close>, its constructor from a base
  value (\<open>lift\<close>) and its \<^verbatim>\<open>operator+\<close> (\<open>combine\<close>) are parameters, and so is the template
  flag \<open>LazyPropogation\<close>. The object is a record that every operation takes and returns.
\<close>

section \<open>Machine integers and failures\<close>

text \<open>
  Every index of the source is a \<^verbatim>\<open>std::size_t\<close>, taken here as an unsigned 64-bit
  integer: a natural number below \<open>2 ^ 64\<close>, every arithmetic result reduced by \<open>sz\<close>.
\<close>

definition sz :: "nat \<Rightarrow> nat" where
  "sz x = x mod 2 ^ 64"

text \<open>The unsigned difference \<open>a - b\<close> of two such integers.\<close>

definition sz_sub :: "nat \<Rightarrow> nat \<Rightarrow> nat" where
  "sz_sub a b = (a + 2 ^ 64 - b) mod 2 ^ 64"

text \<open>
  What the source leaves to the run-time system is a value of the model: an index outside
  a vector, \<^verbatim>\<open>value()\<close> of an empty optional (thrown inside a \<^verbatim>\<open>noexcept\<close> function),
  a failed \<^verbatim>\<open>assert\<close>, and the \<^verbatim>\<open>static_assert(false, "Invalid updater type")\<close> branch
  of the updater dispatch.
\<close>

datatype error = OutOfBounds | BadOptionalAccess | AssertionFailed | InvalidUpdaterType

definition bindE :: "error + 'a \<Rightarrow> ('a \<Rightarrow> error + 'b) \<Rightarrow> error + 'b" where
  "bindE m f = (case m of Inl e \<Rightarrow> Inl e | Inr a \<Rightarrow> f a)"

text \<open>
  The recursive functions of the source are not known to return on every argument, so
  their results are wrapped once more: \<open>None\<close> is a call that never returns.
\<close>

definition bindR :: "(error + 'a) option \<Rightarrow> ('a \<Rightarrow> (error + 'b) option) \<Rightarrow> (error + 'b) option" where
  "bindR m f = Option.bind m (\<lambda>x. case x of Inl e \<Rightarrow> Some (Inl e) | Inr a \<Rightarrow> f a)"

section \<open>Data model\<close>

text \<open>
  The two call shapes \<^verbatim>\<open>UpdaterT = QueryT(QueryT, size_t)\<close> and
  \<^verbatim>\<open>RangeUpdaterT = QueryT(QueryT, size_t, size_t)\<close>, and an updater handed to
  \<^verbatim>\<open>update\<close>: a callable of one of the two shapes.
\<close>

datatype 'q updater =
    PointUpdater "'q \<Rightarrow> nat \<Rightarrow> 'q"
  | RangeUpdater "'q \<Rightarrow> nat \<Rightarrow> nat \<Rightarrow> 'q"

text \<open>
  The types the dispatch of \<^verbatim>\<open>_update_rebuild_tree\<close> compares with \<^verbatim>\<open>std::is_same_v\<close>:
  the two function types \<^verbatim>\<open>UpdaterT\<close> and \<^verbatim>\<open>RangeUpdaterT\<close> of the class, and the type the
  template parameter \<^verbatim>\<open>Updater\<close> is deduced to. \<^verbatim>\<open>update\<close>, \<^verbatim>\<open>_update_tree\<close> and
  \<^verbatim>\<open>_update_rebuild_tree\<close> all pass the updater on as the named parameter \<^verbatim>\<open>updater\<close>, an
  lvalue, so for the forwarding reference \<^verbatim>\<open>Updater&&\<close> the parameter \<^verbatim>\<open>Updater\<close> is an
  lvalue reference type, whatever callable the caller gave.
\<close>

datatype cpp_type = UpdaterT | RangeUpdaterT | LvalueReference

definition deduced_Updater :: "'q updater \<Rightarrow> cpp_type" where
  "deduced_Updater updater = LvalueReference"

definition is_same_v :: "cpp_type \<Rightarrow> cpp_type \<Rightarrow> bool" where
  "is_same_v a b = (a = b)"

text \<open>The call \<^verbatim>\<open>updater(q, l)\<close> and the call \<^verbatim>\<open>updater(q, l, r)\<close>.\<close>

fun call2 :: "'q updater \<Rightarrow> 'q \<Rightarrow> nat \<Rightarrow> error + 'q" where
  "call2 (PointUpdater f) q l = Inr (f q l)"
| "call2 (RangeUpdater g) q l = Inl InvalidUpdaterType"

fun call3 :: "'q updater \<Rightarrow> 'q \<Rightarrow> nat \<Rightarrow> nat \<Rightarrow> error + 'q" where
  "call3 (RangeUpdater g) q l r = Inr (g q l r)"
| "call3 (PointUpdater f) q l r = Inl InvalidUpdaterType"

text \<open>
  An entry of a lazy queue:
  \<^verbatim>\<open>std::variant<std::monostate, std::function<UpdaterT>, std::function<RangeUpdaterT>>\<close>.
\<close>

datatype 'q task =
    Monostate
  | PointTask "'q \<Rightarrow> nat \<Rightarrow> 'q"
  | RangeTask "'q \<Rightarrow> nat \<Rightarrow> nat \<Rightarrow> 'q"

text \<open>\<^verbatim>\<open>emplace_back(updater)\<close> builds the variant alternative the callable converts to.\<close>

fun task_of :: "'q updater \<Rightarrow> 'q task" where
  "task_of (PointUpdater f) = PointTask f"
| "task_of (RangeUpdater g) = RangeTask g"

record 'q segtree =
  tree_size :: nat
  data :: "'q option list"
  lazyTasks :: "'q task list list"

section \<open>Vector accesses\<close>

definition read_data :: "nat \<Rightarrow> 'q segtree \<Rightarrow> error + 'q option" where
  "read_data i s = (if i < length (data s) then Inr (data s ! i) else Inl OutOfBounds)"

definition write_data :: "nat \<Rightarrow> 'q option \<Rightarrow> 'q segtree \<Rightarrow> error + 'q segtree" where
  "write_data i v s =
     (if i < length (data s) then Inr (s\<lparr>data := (data s)[i := v]\<rparr>) else Inl OutOfBounds)"

definition value_of :: "'q option \<Rightarrow> error + 'q" where
  "value_of d = (case d of None \<Rightarrow> Inl BadOptionalAccess | Some v \<Rightarrow> Inr v)"

definition push_task :: "nat \<Rightarrow> 'q task \<Rightarrow> 'q segtree \<Rightarrow> error + 'q segtree" where
  "push_task i t s =
     (if i < length (lazyTasks s)
      then Inr (s\<lparr>lazyTasks := (lazyTasks s)[i := lazyTasks s ! i @ [t]]\<rparr>)
      else Inl OutOfBounds)"

section \<open>The private operations\<close>

definition get_segtree_size :: "nat \<Rightarrow> nat" where
  "get_segtree_size n = sz (4 * n + 1)"

definition merge_childs :: "('q \<Rightarrow> 'q \<Rightarrow> 'q) \<Rightarrow> nat \<Rightarrow> 'q segtree \<Rightarrow> error + 'q segtree" where
  "merge_childs combine node s =
     (if \<not> sz (sz (2 * node) + 1) < length (data s) then Inl AssertionFailed
      else bindE (read_data (sz (2 * node)) s) (\<lambda>a.
           bindE (value_of a) (\<lambda>va.
           bindE (read_data (sz (sz (2 * node) + 1)) s) (\<lambda>b.
           bindE (value_of b) (\<lambda>vb.
           write_data node (Some (combine va vb)) s)))))"

lemma bindR_mono [partial_function_mono]:
  assumes "mono_option B" and "\<And>y. mono_option (C y)"
  shows "mono_option (\<lambda>f. bindR (B f) (\<lambda>y. C y f))"
  unfolding bindR_def
  apply (rule bind_mono [OF assms(1)])
  subgoal for y by (cases y) (simp_all add: assms(2) option.const_mono)
  done

partial_function (option) build_tree ::
  "('b \<Rightarrow> 'q) \<Rightarrow> ('q \<Rightarrow> 'q \<Rightarrow> 'q) \<Rightarrow> nat \<Rightarrow> nat \<Rightarrow> nat \<Rightarrow> 'b list \<Rightarrow> 'q segtree
     \<Rightarrow> (error + 'q segtree) option"
where
  "build_tree lift combine node tree_left tree_right input_data s =
     (if tree_left \<noteq> tree_right then
        let mid = sz (tree_left + tree_right) div 2 in
        bindR (build_tree lift combine (sz (2 * node)) tree_left mid input_data s) (\<lambda>s1.
        bindR (build_tree lift combine (sz (sz (2 * node) + 1)) (sz (mid + 1)) tree_right
                 input_data s1) (\<lambda>s2.
        Some (merge_childs combine node s2)))
      else if tree_left < length input_data
        then Some (write_data node (Some (lift (input_data ! tree_left))) s)
        else Some (Inl OutOfBounds))"

text \<open>
  The dispatch of \<^verbatim>\<open>_update_rebuild_tree\<close> tests \<^verbatim>\<open>is_same_v<UpdaterT, Updater>\<close> first and
  \<^verbatim>\<open>is_same_v<RangeUpdaterT, UpdaterT>\<close> second, as the source writes them. The first
  compares a function type with a reference type, the second the two function types of
  the class with each other: neither holds for any updater, and the branch left is
  \<^verbatim>\<open>static_assert(false, "Invalid updater type")\<close>. The tests are those of a plain
  \<^verbatim>\<open>if\<close>, so the compiler meets that branch for every updater: a program that updates
  a tree without lazy propagation is rejected. The model reports this as a failure of the
  rebuild, which every update with a valid range reaches. The two calls above it are
  reached by no updater; the model keeps them in the order of the source, on the value of
  the stored entry where the source passes the entry itself.
\<close>

definition apply_updater ::
  "'q updater \<Rightarrow> nat \<Rightarrow> nat \<Rightarrow> nat \<Rightarrow> 'q segtree \<Rightarrow> error + 'q segtree"
where
  "apply_updater updater node tree_left tree_right s =
     (if is_same_v UpdaterT (deduced_Updater updater) then
        bindE (read_data node s) (\<lambda>d.
          case d of
            None \<Rightarrow> write_data node None s
          | Some q \<Rightarrow> bindE (call2 updater q tree_left) (\<lambda>q'. write_data node (Some q') s))
      else if is_same_v RangeUpdaterT UpdaterT then
        bindE (read_data node s) (\<lambda>d.
          case d of
            None \<Rightarrow> write_data node None s
          | Some q \<Rightarrow> bindE (call3 updater q tree_left tree_right)
                        (\<lambda>q'. write_data node (Some q') s))
      else Inl InvalidUpdaterType)"

partial_function (option) update_rebuild_tree ::
  "('q \<Rightarrow> 'q \<Rightarrow> 'q) \<Rightarrow> 'q updater \<Rightarrow> nat \<Rightarrow> nat \<Rightarrow> nat \<Rightarrow> 'q segtree
     \<Rightarrow> (error + 'q segtree) option"
where
  "update_rebuild_tree combine updater node tree_left tree_right s =
     bindR (Some (apply_updater updater node tree_left tree_right s)) (\<lambda>s0.
       if tree_left \<noteq> tree_right then
         let mid = sz (tree_left + tree_right) div 2 in
         bindR (update_rebuild_tree combine updater (sz (2 * node)) tree_left mid s0) (\<lambda>s1.
         bindR (update_rebuild_tree combine updater (sz (sz (2 * node) + 1)) (sz (mid + 1))
                  tree_right s1) (\<lambda>s2.
         Some (merge_childs combine node s2)))
       else Some (Inr s0))"

text \<open>
  One round of the loop of \<^verbatim>\<open>_execute_lazy_tasks_and_pushdown\<close>: the task is applied to
  the node's own value and a copy is appended to the queues at \<open>2 * node\<close> and
  \<open>2 * node + 1\<close>; a \<^verbatim>\<open>monostate\<close> entry matches neither test and is skipped.
\<close>

fun run_task :: "nat \<Rightarrow> nat \<Rightarrow> nat \<Rightarrow> 'q task \<Rightarrow> 'q segtree \<Rightarrow> error + 'q segtree" where
  "run_task node tree_left tree_right (PointTask f) s =
     bindE (read_data node s) (\<lambda>d.
     bindE (value_of d) (\<lambda>q.
     bindE (write_data node (Some (f q tree_left)) s) (\<lambda>s1.
     bindE (push_task (sz (2 * node)) (PointTask f) s1) (\<lambda>s2.
     push_task (sz (sz (2 * node) + 1)) (PointTask f) s2))))"
| "run_task node tree_left tree_right (RangeTask g) s =
     bindE (read_data node s) (\<lambda>d.
     bindE (value_of d) (\<lambda>q.
     bindE (write_data node (Some (g q tree_left tree_right)) s) (\<lambda>s1.
     bindE (push_task (sz (2 * node)) (RangeTask g) s1) (\<lambda>s2.
     push_task (sz (sz (2 * node) + 1)) (RangeTask g) s2))))"
| "run_task node tree_left tree_right Monostate s = Inr s"

text \<open>
  The loop runs over the queue of the node as it stands when the loop starts: the
  queues it appends to are those of other positions (for \<open>node \<ge> 1\<close> below \<open>2 ^ 63\<close>).
\<close>

fun run_tasks :: "nat \<Rightarrow> nat \<Rightarrow> nat \<Rightarrow> 'q task list \<Rightarrow> 'q segtree \<Rightarrow> error + 'q segtree" where
  "run_tasks node tree_left tree_right [] s = Inr s"
| "run_tasks node tree_left tree_right (t # ts) s =
     bindE (run_task node tree_left tree_right t s) (run_tasks node tree_left tree_right ts)"

definition execute_lazy_tasks_and_pushdown ::
  "nat \<Rightarrow> nat \<Rightarrow> nat \<Rightarrow> 'q segtree \<Rightarrow> error + 'q segtree"
where
  "execute_lazy_tasks_and_pushdown node tree_left tree_right s =
     (if node < length (lazyTasks s) then
        bindE (run_tasks node tree_left tree_right (lazyTasks s ! node) s) (\<lambda>s1.
        Inr (s1\<lparr>lazyTasks := (lazyTasks s1)[node := []]\<rparr>))
      else Inl OutOfBounds)"

text \<open>The answer of \<^verbatim>\<open>_query_tree\<close> from the answers of the two children.\<close>

fun join_queries :: "('q \<Rightarrow> 'q \<Rightarrow> 'q) \<Rightarrow> 'q option \<Rightarrow> 'q option \<Rightarrow> 'q option" where
  "join_queries combine (Some a) (Some b) = Some (combine a b)"
| "join_queries combine (Some a) None = Some a"
| "join_queries combine None right_query = right_query"

partial_function (option) query_tree ::
  "bool \<Rightarrow> ('q \<Rightarrow> 'q \<Rightarrow> 'q) \<Rightarrow> nat \<Rightarrow> nat \<Rightarrow> nat \<Rightarrow> nat \<Rightarrow> nat \<Rightarrow> 'q segtree
     \<Rightarrow> (error + 'q option \<times> 'q segtree) option"
where
  "query_tree LazyPropogation combine node tree_left tree_right query_left query_right s =
     bindR (if LazyPropogation
            then Some (execute_lazy_tasks_and_pushdown node tree_left tree_right s)
            else Some (Inr s)) (\<lambda>s0.
       if tree_left > query_right \<or> tree_right < query_left then Some (Inr (None, s0))
       else if query_left \<le> tree_left \<and> tree_right \<le> query_right
         then Some (bindE (read_data node s0) (\<lambda>d. Inr (d, s0)))
       else
         let mid = sz (tree_left + tree_right) div 2 in
         bindR (query_tree LazyPropogation combine (sz (2 * node)) tree_left mid
                  query_left query_right s0) (\<lambda>(left_query, s1).
         bindR (query_tree LazyPropogation combine (sz (sz (2 * node) + 1)) (sz (mid + 1))
                  tree_right query_left query_right s1) (\<lambda>(right_query, s2).
         Some (Inr (join_queries combine left_query right_query, s2)))))"

partial_function (option) update_tree ::
  "bool \<Rightarrow> ('q \<Rightarrow> 'q \<Rightarrow> 'q) \<Rightarrow> 'q updater \<Rightarrow> nat \<Rightarrow> nat \<Rightarrow> nat \<Rightarrow> nat \<Rightarrow> nat \<Rightarrow> 'q segtree
     \<Rightarrow> (error + 'q segtree) option"
where
  "update_tree LazyPropogation combine updater node tree_left tree_right update_left
       update_right s =
     bindR (if LazyPropogation
            then Some (execute_lazy_tasks_and_pushdown node tree_left tree_right s)
            else Some (Inr s)) (\<lambda>s0.
       if tree_left > update_right \<or> tree_right < update_left then Some (Inr s0)
       else if update_left \<le> tree_left \<and> tree_right \<le> update_right then
         (if LazyPropogation then Some (push_task node (task_of updater) s0)
          else update_rebuild_tree combine updater node tree_left tree_right s0)
       else
         let mid = sz (tree_left + tree_right) div 2 in
         bindR (update_tree LazyPropogation combine updater (sz (2 * node)) tree_left mid
                  update_left update_right s0) (\<lambda>s1.
         bindR (update_tree LazyPropogation combine updater (sz (sz (2 * node) + 1))
                  (sz (mid + 1)) tree_right update_left update_right s1) (\<lambda>s2.
         Some (merge_childs combine node s2))))"

section \<open>The public operations\<close>

text \<open>
  The three constructors size both vectors with \<open>get_segtree_size\<close> (the queues only
  under lazy propagation) and build over \<open>[0, size - 1]\<close>, the subtraction being the
  unsigned one. \<^verbatim>\<open>BaseT{}\<close> of an arithmetic type is its zero. \<open>construct\<close> is the body the
  three constructors share. The queries and updates check their \<^verbatim>\<open>assert\<close> first.
\<close>

definition construct ::
  "bool \<Rightarrow> ('b \<Rightarrow> 'q) \<Rightarrow> ('q \<Rightarrow> 'q \<Rightarrow> 'q) \<Rightarrow> nat \<Rightarrow> 'b list \<Rightarrow> (error + 'q segtree) option"
where
  "construct LazyPropogation lift combine n input_data =
     build_tree lift combine 1 0 (sz_sub n 1) input_data
       \<lparr>tree_size = n,
        data = replicate (get_segtree_size n) None,
        lazyTasks = (if LazyPropogation then replicate (get_segtree_size n) [] else [])\<rparr>"

definition SegmentTree_size ::
  "bool \<Rightarrow> ('b::zero \<Rightarrow> 'q) \<Rightarrow> ('q \<Rightarrow> 'q \<Rightarrow> 'q) \<Rightarrow> nat \<Rightarrow> (error + 'q segtree) option"
where
  "SegmentTree_size LazyPropogation lift combine n =
     construct LazyPropogation lift combine n (replicate n 0)"

definition SegmentTree_size_default ::
  "bool \<Rightarrow> ('b \<Rightarrow> 'q) \<Rightarrow> ('q \<Rightarrow> 'q \<Rightarrow> 'q) \<Rightarrow> nat \<Rightarrow> 'b \<Rightarrow> (error + 'q segtree) option"
where
  "SegmentTree_size_default LazyPropogation lift combine n default_value =
     construct LazyPropogation lift combine n (replicate n default_value)"

definition SegmentTree_vector ::
  "bool \<Rightarrow> ('b \<Rightarrow> 'q) \<Rightarrow> ('q \<Rightarrow> 'q \<Rightarrow> 'q) \<Rightarrow> 'b list \<Rightarrow> (error + 'q segtree) option"
where
  "SegmentTree_vector LazyPropogation lift combine input_data =
     construct LazyPropogation lift combine (sz (length input_data)) input_data"

definition query_pos ::
  "bool \<Rightarrow> ('q \<Rightarrow> 'q \<Rightarrow> 'q) \<Rightarrow> nat \<Rightarrow> 'q segtree \<Rightarrow> (error + 'q option \<times> 'q segtree) option"
where
  "query_pos LazyPropogation combine position s =
     (if \<not> position < tree_size s then Some (Inl AssertionFailed)
      else query_tree LazyPropogation combine 1 0 (sz_sub (tree_size s) 1)
             position position s)"

definition query ::
  "bool \<Rightarrow> ('q \<Rightarrow> 'q \<Rightarrow> 'q) \<Rightarrow> nat \<Rightarrow> nat \<Rightarrow> 'q segtree
     \<Rightarrow> (error + 'q option \<times> 'q segtree) option"
where
  "query LazyPropogation combine left right s =
     (if \<not> (left \<le> right \<and> right < tree_size s) then Some (Inl AssertionFailed)
      else query_tree LazyPropogation combine 1 0 (sz_sub (tree_size s) 1)
             left right s)"

definition update_pos ::
  "bool \<Rightarrow> ('q \<Rightarrow> 'q \<Rightarrow> 'q) \<Rightarrow> 'q updater \<Rightarrow> nat \<Rightarrow> 'q segtree \<Rightarrow> (error + 'q segtree) option"
where
  "update_pos LazyPropogation combine updater position s =
     (if \<not> position < tree_size s then Some (Inl AssertionFailed)
      else update_tree LazyPropogation combine updater 1 0 (sz_sub (tree_size s) 1)
             position position s)"

definition update ::
  "bool \<Rightarrow> ('q \<Rightarrow> 'q \<Rightarrow> 'q) \<Rightarrow> 'q updater \<Rightarrow> nat \<Rightarrow> nat \<Rightarrow> 'q segtree
     \<Rightarrow> (error + 'q segtree) option"
where
  "update LazyPropogation combine updater left right s =
     (if \<not> (left \<le> right \<and> right < tree_size s) then Some (Inl AssertionFailed)
      else update_tree LazyPropogation combine updater 1 0 (sz_sub (tree_size s) 1)
             left right s)"

section \<open>Sequences of public operations\<close>

datatype 'q operation =
    Query nat nat
  | QueryPos nat
  | Update "'q updater" nat nat
  | UpdatePos "'q updater" nat

text \<open>
  \<open>run_ops\<close> performs the operations in order on one tree and collects the answers of
  the queries, in order; the first failure ends the run.
\<close>

fun run_ops ::
  "bool \<Rightarrow> ('q \<Rightarrow> 'q \<Rightarrow> 'q) \<Rightarrow> 'q operation list \<Rightarrow> 'q segtree
     \<Rightarrow> (error + 'q option list \<times> 'q segtree) option"
where
  "run_ops LazyPropogation combine [] s = Some (Inr ([], s))"
| "run_ops LazyPropogation combine (Query l r # ops) s =
     bindR (query LazyPropogation combine l r s) (\<lambda>(v, s1).
     bindR (run_ops LazyPropogation combine ops s1) (\<lambda>(vs, s2). Some (Inr (v # vs, s2))))"
| "run_ops LazyPropogation combine (QueryPos i # ops) s =
     bindR (query_pos LazyPropogation combine i s) (\<lambda>(v, s1).
     bindR (run_ops LazyPropogation combine ops s1) (\<lambda>(vs, s2). Some (Inr (v # vs, s2))))"
| "run_ops LazyPropogation combine (Update u l r # ops) s =
     bindR (update LazyPropogation combine u l r s) (run_ops LazyPropogation combine ops)"
| "run_ops LazyPropogation combine (UpdatePos u i # ops) s =
     bindR (update_pos LazyPropogation combine u i s) (run_ops LazyPropogation combine ops)"

text \<open>The answers a tree built from \<open>input_data\<close> gives to a sequence of operations.\<close>

definition answers ::
  "bool \<Rightarrow> ('b \<Rightarrow> 'q) \<Rightarrow> ('q \<Rightarrow> 'q \<Rightarrow> 'q) \<Rightarrow> 'b list \<Rightarrow> 'q operation list
     \<Rightarrow> (error + 'q option list) option"
where
  "answers LazyPropogation lift combine input_data ops =
     bindR (SegmentTree_vector LazyPropogation lift combine input_data) (\<lambda>s.
     bindR (run_ops LazyPropogation combine ops s) (\<lambda>(vs, s'). Some (Inr vs)))"

section \<open>Notions of the specification\<close>

text \<open>
  \<open>size_ok N\<close>: the tree is not empty and its capacity \<open>4N + 1\<close> is a \<^verbatim>\<open>size_t\<close>.
  \<open>node_inv N n l r\<close> holds of every call \<open>(node, tree_left, tree_right)\<close> that the descent
  from \<open>(1, 0, N - 1)\<close> reaches; its last conjunct bounds the position of a node by the
  width of its range.
\<close>

definition size_ok :: "nat \<Rightarrow> bool" where
  "size_ok N \<longleftrightarrow> 1 \<le> N \<and> 4 * N + 1 < 2 ^ 64"

definition node_inv :: "nat \<Rightarrow> nat \<Rightarrow> nat \<Rightarrow> nat \<Rightarrow> bool" where
  "node_inv N n l r \<longleftrightarrow> l \<le> r \<and> r < N \<and> 1 \<le> n \<and> n < 4 * N \<and> (r - l) * (n + 1) < 2 * N"

text \<open>
  The positions of the implicit heap layout below node \<open>n\<close>: at depth \<open>d\<close> below \<open>n\<close> they
  are the positions from \<open>n * 2 ^ d\<close> up to \<open>(n + 1) * 2 ^ d - 1\<close>.
\<close>

definition subtree :: "nat \<Rightarrow> nat set" where
  "subtree n = {k. \<exists>d. n * 2 ^ d \<le> k \<and> k < (n + 1) * 2 ^ d}"

text \<open>
  \<open>tree_value\<close> is the value the build gives the node of the range \<open>[l, r]\<close> over the
  elements \<open>xs\<close>: the lift of the element at a leaf, the combine of the two halves above.
  \<open>tree_ok\<close>: every node of the subtree at \<open>n\<close> holds the value of its range.
\<close>

function tree_value :: "('b \<Rightarrow> 'q) \<Rightarrow> ('q \<Rightarrow> 'q \<Rightarrow> 'q) \<Rightarrow> 'b list \<Rightarrow> nat \<Rightarrow> nat \<Rightarrow> 'q" where
  "tree_value lift combine xs l r =
     (if l < r
      then combine (tree_value lift combine xs l ((l + r) div 2))
                   (tree_value lift combine xs ((l + r) div 2 + 1) r)
      else lift (xs ! l))"
  by pat_completeness auto
termination
  by (relation "measure (\<lambda>(lift, combine, xs, l, r). r - l)") auto

declare tree_value.simps [simp del]

function tree_ok ::
  "('b \<Rightarrow> 'q) \<Rightarrow> ('q \<Rightarrow> 'q \<Rightarrow> 'q) \<Rightarrow> 'b list \<Rightarrow> 'q option list \<Rightarrow> nat \<Rightarrow> nat \<Rightarrow> nat \<Rightarrow> bool"
where
  "tree_ok lift combine xs d n l r =
     (n < length d \<and> d ! n = Some (tree_value lift combine xs l r) \<and>
      (if l < r
       then tree_ok lift combine xs d (2 * n) l ((l + r) div 2) \<and>
            tree_ok lift combine xs d (2 * n + 1) ((l + r) div 2 + 1) r
       else True))"
  by pat_completeness auto
termination
  by (relation "measure (\<lambda>(lift, combine, xs, d, n, l, r). r - l)") auto

declare tree_ok.simps [simp del]

text \<open>
  The left-to-right combine of \<open>f l, f (l + 1), ..., f r\<close>, and associativity, which the
  users of the tree promise of their combine.
\<close>

definition combine_range :: "('q \<Rightarrow> 'q \<Rightarrow> 'q) \<Rightarrow> (nat \<Rightarrow> 'q) \<Rightarrow> nat \<Rightarrow> nat \<Rightarrow> 'q" where
  "combine_range combine f l r = foldl combine (f l) (map f [Suc l..<Suc r])"

definition associative :: "('q \<Rightarrow> 'q \<Rightarrow> 'q) \<Rightarrow> bool" where
  "associative combine \<longleftrightarrow> (\<forall>a b c. combine (combine a b) c = combine a (combine b c))"

text \<open>
  No task is queued anywhere; \<open>clean\<close> asks it of a lazy tree only, together with the
  length of the vector of queues.
\<close>

definition queues_empty :: "'q segtree \<Rightarrow> bool" where
  "queues_empty s \<longleftrightarrow> list_all (\<lambda>q. q = []) (lazyTasks s)"

definition clean :: "bool \<Rightarrow> nat \<Rightarrow> 'q segtree \<Rightarrow> bool" where
  "clean LazyPropogation N s \<longleftrightarrow>
     (if LazyPropogation then length (lazyTasks s) = 4 * N + 1 \<and> queues_empty s else True)"

text \<open>
  The answer of a query of \<open>[ql, qr]\<close> at the node of the range \<open>[l, r]\<close> when every node
  holds the value of its range: it follows the case distinction of \<^verbatim>\<open>_query_tree\<close>.
\<close>

function query_value ::
  "('b \<Rightarrow> 'q) \<Rightarrow> ('q \<Rightarrow> 'q \<Rightarrow> 'q) \<Rightarrow> 'b list \<Rightarrow> nat \<Rightarrow> nat \<Rightarrow> nat \<Rightarrow> nat \<Rightarrow> 'q option"
where
  "query_value lift combine xs l r ql qr =
     (if l > qr \<or> r < ql then None
      else if ql \<le> l \<and> r \<le> qr then Some (tree_value lift combine xs l r)
      else if l < r then
        join_queries combine
          (query_value lift combine xs l ((l + r) div 2) ql qr)
          (query_value lift combine xs ((l + r) div 2 + 1) r ql qr)
      else None)"
  by pat_completeness auto
termination
  by (relation "measure (\<lambda>(lift, combine, xs, l, r, ql, qr). r - l)") auto

declare query_value.simps [simp del]

text \<open>The tree as the constructors leave it over the elements \<open>xs\<close>.\<close>

definition built_from ::
  "bool \<Rightarrow> ('b \<Rightarrow> 'q) \<Rightarrow> ('q \<Rightarrow> 'q \<Rightarrow> 'q) \<Rightarrow> 'b list \<Rightarrow> 'q segtree \<Rightarrow> bool"
where
  "built_from LazyPropogation lift combine xs s \<longleftrightarrow>
     tree_size s = length xs \<and>
     length (data s) = 4 * length xs + 1 \<and>
     tree_ok lift combine xs (data s) 1 0 (length xs - 1) \<and>
     lazyTasks s = (if LazyPropogation then replicate (4 * length xs + 1) [] else [])"

text \<open>
  A query whose indices satisfy the assertion of the public operation, and the answer
  expected from a tree built over \<open>xs\<close> on which no update has been performed.
\<close>

fun valid_query :: "nat \<Rightarrow> 'q operation \<Rightarrow> bool" where
  "valid_query N (Query l r) = (l \<le> r \<and> r < N)"
| "valid_query N (QueryPos i) = (i < N)"
| "valid_query N (Update u l r) = False"
| "valid_query N (UpdatePos u i) = False"

fun expected :: "('b \<Rightarrow> 'q) \<Rightarrow> ('q \<Rightarrow> 'q \<Rightarrow> 'q) \<Rightarrow> 'b list \<Rightarrow> 'q operation \<Rightarrow> 'q option" where
  "expected lift combine xs (Query l r) = query_value lift combine xs 0 (length xs - 1) l r"
| "expected lift combine xs (QueryPos i) = query_value lift combine xs 0 (length xs - 1) i i"
| "expected lift combine xs (Update u l r) = None"
| "expected lift combine xs (UpdatePos u i) = None"

text \<open>
  The sizes the constructors establish: a non-empty tree whose vectors have the capacity
  \<open>4N + 1\<close> (the queues only under lazy propagation).
\<close>

definition well_formed :: "bool \<Rightarrow> 'q segtree \<Rightarrow> bool" where
  "well_formed LazyPropogation s \<longleftrightarrow>
     size_ok (tree_size s) \<and> length (data s) = 4 * tree_size s + 1 \<and>
     (if LazyPropogation then length (lazyTasks s) = 4 * tree_size s + 1 else True)"

text \<open>
  \<open>frame A s s'\<close>: the two states have the same size and the same vector lengths, and
  agree on every value and every queue outside the positions \<open>A\<close>.
\<close>

definition frame :: "nat set \<Rightarrow> 'q segtree \<Rightarrow> 'q segtree \<Rightarrow> bool" where
  "frame A s s' \<longleftrightarrow>
     tree_size s' = tree_size s \<and> length (data s') = length (data s) \<and>
     length (lazyTasks s') = length (lazyTasks s) \<and>
     (\<forall>k. k \<notin> A \<longrightarrow> data s' ! k = data s ! k \<and> lazyTasks s' ! k = lazyTasks s ! k)"

text \<open>
  The notion the invariant of the lazy queues speaks of, written from its words.
  \<open>flush\<close> pushes every node of the tree down, parents before children, with the
  push-down of the program; \<open>subtree_combine\<close> combines the leaves of a subtree, left to
  right as the tree splits; \<open>true_combine\<close> is the combine of a node's subtree in the tree
  flushed from the root; \<open>tree_nodes\<close> lists the nodes with their ranges.
\<close>

function flush :: "nat \<Rightarrow> nat \<Rightarrow> nat \<Rightarrow> 'q segtree \<Rightarrow> error + 'q segtree" where
  "flush n l r s =
     bindE (execute_lazy_tasks_and_pushdown n l r s) (\<lambda>s0.
       if l < r then
         bindE (flush (2 * n) l ((l + r) div 2) s0) (\<lambda>s1.
         flush (2 * n + 1) ((l + r) div 2 + 1) r s1)
       else Inr s0)"
  by pat_completeness auto
termination
  by (relation "measure (\<lambda>(n, l, r, s). r - l)") auto

declare flush.simps [simp del]

function subtree_combine :: "('q \<Rightarrow> 'q \<Rightarrow> 'q) \<Rightarrow> nat \<Rightarrow> nat \<Rightarrow> nat \<Rightarrow> 'q segtree \<Rightarrow> 'q option" where
  "subtree_combine combine n l r s =
     (if l < r then
        (case subtree_combine combine (2 * n) l ((l + r) div 2) s of
           None \<Rightarrow> None
         | Some a \<Rightarrow>
            (case subtree_combine combine (2 * n + 1) ((l + r) div 2 + 1) r s of
               None \<Rightarrow> None
             | Some b \<Rightarrow> Some (combine a b)))
      else if n < length (data s) then data s ! n else None)"
  by pat_completeness auto
termination
  by (relation "measure (\<lambda>(combine, n, l, r, s). r - l)") auto

declare subtree_combine.simps [simp del]

definition true_combine :: "('q \<Rightarrow> 'q \<Rightarrow> 'q) \<Rightarrow> 'q segtree \<Rightarrow> nat \<Rightarrow> nat \<Rightarrow> nat \<Rightarrow> 'q option" where
  "true_combine combine s n l r =
     (case flush 1 0 (tree_size s - 1) s of
        Inl e \<Rightarrow> None
      | Inr s' \<Rightarrow> subtree_combine combine n l r s')"

function tree_nodes :: "nat \<Rightarrow> nat \<Rightarrow> nat \<Rightarrow> (nat \<times> nat \<times> nat) list" where
  "tree_nodes n l r =
     (n, l, r) #
     (if l < r
      then tree_nodes (2 * n) l ((l + r) div 2) @ tree_nodes (2 * n + 1) ((l + r) div 2 + 1) r
      else [])"
  by pat_completeness auto
termination
  by (relation "measure (\<lambda>(n, l, r). r - l)") auto

declare tree_nodes.simps [simp del]

text \<open>
  \<open>node_current\<close>: the node holds the true combine of its subtree. \<open>lazy_invariant\<close>:
  every node whose queue is empty does.
\<close>

definition node_current :: "('q \<Rightarrow> 'q \<Rightarrow> 'q) \<Rightarrow> 'q segtree \<Rightarrow> nat \<times> nat \<times> nat \<Rightarrow> bool" where
  "node_current combine s = (\<lambda>(n, l, r).
     n < length (data s) \<and> data s ! n \<noteq> None \<and> data s ! n = true_combine combine s n l r)"

definition lazy_invariant :: "('q \<Rightarrow> 'q \<Rightarrow> 'q) \<Rightarrow> 'q segtree \<Rightarrow> bool" where
  "lazy_invariant combine s \<longleftrightarrow>
     list_all (node_current combine s)
       (filter (\<lambda>(n, l, r). lazyTasks s ! n = []) (tree_nodes 1 0 (tree_size s - 1)))"

text \<open>
  The postcondition of the build, node by node: a leaf holds the lift of its element, an
  inner node the combine of the values its two children hold.
\<close>

function build_post ::
  "('b \<Rightarrow> 'q) \<Rightarrow> ('q \<Rightarrow> 'q \<Rightarrow> 'q) \<Rightarrow> 'b list \<Rightarrow> 'q option list \<Rightarrow> nat \<Rightarrow> nat \<Rightarrow> nat \<Rightarrow> bool"
where
  "build_post lift combine xs d n l r =
     (if l < r then
        build_post lift combine xs d (2 * n) l ((l + r) div 2) \<and>
        build_post lift combine xs d (2 * n + 1) ((l + r) div 2 + 1) r \<and>
        2 * n + 1 < length d \<and>
        (case d ! (2 * n) of
           None \<Rightarrow> False
         | Some a \<Rightarrow>
            (case d ! (2 * n + 1) of
               None \<Rightarrow> False
             | Some b \<Rightarrow> d ! n = Some (combine a b)))
      else n < length d \<and> d ! n = Some (lift (xs ! l)))"
  by pat_completeness auto
termination
  by (relation "measure (\<lambda>(lift, combine, xs, d, n, l, r). r - l)") auto

declare build_post.simps [simp del]

section \<open>Evaluation of the monadic layers\<close>

lemma bindR_simps:
  "bindR (Some (Inr a)) f = f a"
  "bindR (Some (Inl e)) f = Some (Inl e)"
  "bindR None f = None"
  by (simp_all add: bindR_def)

lemma bindE_simps:
  "bindE (Inr a) g = g a"
  "bindE (Inl e) g = Inl e"
  by (simp_all add: bindE_def)

lemma bindR_cong_weak: "m = m' \<Longrightarrow> bindR m f = bindR m' f"
  by simp

lemma bindE_cong_weak: "m = m' \<Longrightarrow> bindE m f = bindE m' f"
  by simp

lemmas eval_simps =
  bindR_simps bindE_simps build_tree.simps update_rebuild_tree.simps
  query_tree.simps update_tree.simps Let_def sz_def sz_sub_def read_data_def write_data_def value_of_def
  push_task_def get_segtree_size_def merge_childs_def apply_updater_def is_same_v_def
  deduced_Updater_def
  execute_lazy_tasks_and_pushdown_def construct_def SegmentTree_vector_def SegmentTree_size_def
  SegmentTree_size_default_def query_def update_def query_pos_def update_pos_def answers_def

section \<open>Push-down at a leaf\<close>

text \<open>
  Claim C4 (push-down forwards a task to the children's queues only when the node is not
  a leaf; at a leaf the tasks are applied and the queue is cleared, nothing forwarded).
  The tree over \<open>[1, 2]\<close> has the leaves 2 and 3. After a point update at position 0 the
  task waits at leaf 2; pushing leaf 2 down applies it (the value becomes 11), clears the
  queue of node 2 and appends a copy to the queues at the positions 4 and 5, which are no
  nodes of the tree. The theorem gives the lengths of the queues 2, 4 and 5 before the
  push-down, the value of node 2 after it, and the lengths of the same queues after it.
\<close>

theorem pushdown_at_leaf_forwards:
  "bindR (SegmentTree_vector True id (+) [1, 2 :: int]) (\<lambda>s.
   bindR (update_pos True (+) (PointUpdater (\<lambda>q l. q + 10)) 0 s) (\<lambda>s1.
   bindR (Some (execute_lazy_tasks_and_pushdown 2 0 0 s1)) (\<lambda>s2.
   Some (Inr (map (\<lambda>i. length (lazyTasks s1 ! i)) [2, 4, 5], data s2 ! 2,
              map (\<lambda>i. length (lazyTasks s2 ! i)) [2, 4, 5])))))
   = Some (Inr ([1, 0, 0], Some 11, [0, 1, 1]))"
  by (simp add: eval_simps cong: bindR_cong_weak bindE_cong_weak)

section \<open>Accesses beyond the capacity\<close>

text \<open>
  Claim C5 (no build, query, update or push-down step indexes a position at or beyond
  \<open>4N + 1\<close>). For \<open>N = 6\<close> both vectors have 25 entries and position 4 is the leaf at
  node 13. A point update at position 4 queues its task at node 13; the query of
  position 4 then pushes node 13 down, which appends to the queue at index 26.
\<close>

theorem pushdown_leaves_capacity:
  "answers True id (+) [1, 2, 3, 4, 5, 6 :: int]
     [UpdatePos (PointUpdater (\<lambda>q l. q + 10)) 4, QueryPos 4] = Some (Inl OutOfBounds)"
  by (simp add: eval_simps cong: bindR_cong_weak bindE_cong_weak)

section \<open>Building from an empty input\<close>

lemma build_tree_empty_input:
  "k \<le> 64 \<Longrightarrow> build_tree lift combine node 0 (2 ^ k - 1) [] s = Some (Inl OutOfBounds)"
proof (induction k arbitrary: node s)
  case 0
  show ?case by (subst build_tree.simps) simp
next
  case (Suc k)
  have lt: "(2::nat) ^ Suc k - 1 < 2 ^ 64"
    using Suc.prems power_increasing [of "Suc k" 64 "2::nat"] by simp
  have mid: "sz (0 + (2 ^ Suc k - 1)) div 2 = 2 ^ k - (1::nat)"
    using lt by (simp add: sz_def)
  have "(1::nat) \<le> 2 ^ k"
    by simp
  then have "(2::nat) \<le> 2 ^ Suc k"
    by simp
  then have ne: "(0::nat) \<noteq> 2 ^ Suc k - 1"
    by linarith
  show ?case
    apply (subst build_tree.simps)
    using ne Suc.IH [of "sz (2 * node)" s] Suc.prems
    by (simp only: mid Let_def if_True bindR_simps) simp
qed

section \<open>Dispatch on the updater's shape\<close>

text \<open>
  Claim C7 (without lazy propagation a covered subtree is rebuilt with the logic of the
  updater's declared shape: a point-style updater gets each node's left boundary, a
  range-style updater each node's left and right boundaries). A range-style updater
  passes neither test of the dispatch, whose second test compares \<open>RangeUpdaterT\<close>
  with \<open>UpdaterT\<close>, and ends in the branch "Invalid updater type". So does a point-style
  updater, whose deduced type is a reference type, which the first test tells from
  \<open>UpdaterT\<close>.
\<close>

theorem rebuild_range_updater_rejected:
  "answers False id (+) [1, 2 :: int] [Update (RangeUpdater (\<lambda>q l r. q + 10)) 0 1, Query 0 1]
     = Some (Inl InvalidUpdaterType)"
  by (simp add: eval_simps cong: bindR_cong_weak bindE_cong_weak)

section \<open>The shape of the recursion\<close>

lemma node_inv_root: "1 \<le> N \<Longrightarrow> node_inv N 1 0 (N - 1)"
  by (simp add: node_inv_def)

lemma node_inv_internal:
  assumes "node_inv N n l r" "l < r"
  shows "2 * n + 1 < 4 * N"
proof -
  have "1 * (n + 1) \<le> (r - l) * (n + 1)"
    using assms(2) by (intro mult_le_mono) simp_all
  with assms(1) show ?thesis by (simp add: node_inv_def)
qed

lemma node_inv_left:
  assumes "node_inv N n l r" "l < r"
  shows "node_inv N (2 * n) l ((l + r) div 2)"
proof -
  let ?a = "(l + r) div 2 - l"
  have "?a * (2 * n + 1) \<le> ?a * (2 * (n + 1))"
    by (intro mult_le_mono) simp_all
  also have "\<dots> = (2 * ?a) * (n + 1)"
    by simp
  also have "\<dots> \<le> (r - l) * (n + 1)"
    by (intro mult_le_mono) (use assms(2) in simp_all)
  finally have "?a * (2 * n + 1) \<le> (r - l) * (n + 1)" .
  moreover have "(r - l) * (n + 1) < 2 * N"
    using assms(1) unfolding node_inv_def by blast
  ultimately have "?a * (2 * n + 1) < 2 * N"
    by (rule le_less_trans)
  moreover have "2 * n + 1 < 4 * N"
    by (rule node_inv_internal [OF assms])
  moreover have "l \<le> r" "r < N" "1 \<le> n"
    using assms(1) unfolding node_inv_def by blast+
  ultimately show ?thesis
    unfolding node_inv_def using assms(2) by (intro conjI) linarith+
qed

lemma node_inv_right:
  assumes "node_inv N n l r" "l < r"
  shows "node_inv N (2 * n + 1) ((l + r) div 2 + 1) r"
proof -
  let ?a = "r - ((l + r) div 2 + 1)"
  have "?a * (2 * n + 1 + 1) = (2 * ?a) * (n + 1)"
    by simp
  also have "\<dots> \<le> (r - l) * (n + 1)"
    by (intro mult_le_mono) (use assms(2) in simp_all)
  finally have "?a * (2 * n + 1 + 1) \<le> (r - l) * (n + 1)" .
  moreover have "(r - l) * (n + 1) < 2 * N"
    using assms(1) unfolding node_inv_def by blast
  ultimately have "?a * (2 * n + 1 + 1) < 2 * N"
    by (rule le_less_trans)
  moreover have "2 * n + 1 < 4 * N"
    by (rule node_inv_internal [OF assms])
  moreover have "l \<le> r" "r < N" "1 \<le> n"
    using assms(1) unfolding node_inv_def by blast+
  ultimately show ?thesis
    unfolding node_inv_def using assms(2) by (intro conjI) linarith+
qed

lemma node_inv_induct [consumes 1, case_names node]:
  assumes inv: "node_inv N n l r"
    and step: "\<And>n l r. node_inv N n l r
      \<Longrightarrow> (l < r \<Longrightarrow> P (2 * n) l ((l + r) div 2))
      \<Longrightarrow> (l < r \<Longrightarrow> P (2 * n + 1) ((l + r) div 2 + 1) r)
      \<Longrightarrow> P n l r"
  shows "P n l r"
  using inv
proof (induction "r - l" arbitrary: n l r rule: less_induct)
  case less
  show ?case
  proof (rule step [OF less.prems])
    assume lr: "l < r"
    show "P (2 * n) l ((l + r) div 2)"
      by (rule less.hyps [OF _ node_inv_left [OF less.prems lr]]) (use lr in linarith)
    show "P (2 * n + 1) ((l + r) div 2 + 1) r"
      by (rule less.hyps [OF _ node_inv_right [OF less.prems lr]]) (use lr in linarith)
  qed
qed

section \<open>The positions of a subtree\<close>

lemma subtree_self: "n \<in> subtree n"
  unfolding subtree_def by (auto intro: exI [of _ 0])

lemma subtree_left: "subtree (2 * n) \<subseteq> subtree n"
proof
  fix k assume "k \<in> subtree (2 * n)"
  then obtain d where d: "2 * n * 2 ^ d \<le> k" "k < (2 * n + 1) * 2 ^ d"
    by (auto simp: subtree_def)
  have "(2 * n + 1) * 2 ^ d \<le> (2 * n + 2) * 2 ^ d"
    by (intro mult_le_mono) simp_all
  with d have "n * 2 ^ Suc d \<le> k \<and> k < (n + 1) * 2 ^ Suc d"
    by (simp add: algebra_simps)
  then show "k \<in> subtree n"
    unfolding subtree_def by blast
qed

lemma subtree_right: "subtree (2 * n + 1) \<subseteq> subtree n"
proof
  fix k assume "k \<in> subtree (2 * n + 1)"
  then obtain d where d: "(2 * n + 1) * 2 ^ d \<le> k" "k < (2 * n + 1 + 1) * 2 ^ d"
    by (auto simp: subtree_def)
  have "2 * n * 2 ^ d \<le> (2 * n + 1) * 2 ^ d"
    by (intro mult_le_mono) simp_all
  with d have "n * 2 ^ Suc d \<le> k \<and> k < (n + 1) * 2 ^ Suc d"
    by (simp add: algebra_simps)
  then show "k \<in> subtree n"
    unfolding subtree_def by blast
qed

lemma subtree_ge: "k \<in> subtree n \<Longrightarrow> n \<le> k"
proof -
  assume "k \<in> subtree n"
  then obtain d where d: "n * 2 ^ d \<le> k" by (auto simp: subtree_def)
  have "n \<le> n * 2 ^ d" by simp
  with d show ?thesis by linarith
qed

lemma subtree_not_parent_left: "1 \<le> n \<Longrightarrow> n \<notin> subtree (2 * n)"
  using subtree_ge [of n "2 * n"] by auto

lemma subtree_not_parent_right: "n \<notin> subtree (2 * n + 1)"
  using subtree_ge [of n "2 * n + 1"] by auto

lemma subtree_disjoint:
  assumes "1 \<le> n"
  shows "subtree (2 * n) \<inter> subtree (2 * n + 1) = {}"
proof (rule ccontr)
  assume "subtree (2 * n) \<inter> subtree (2 * n + 1) \<noteq> {}"
  then obtain k a b where
    a: "2 * n * 2 ^ a \<le> k" "k < (2 * n + 1) * 2 ^ a" and
    b: "(2 * n + 1) * 2 ^ b \<le> k" "k < (2 * n + 1 + 1) * 2 ^ b"
    by (auto simp: subtree_def)
  show False
  proof (cases "a \<le> b")
    case True
    then have "(2::nat) ^ a \<le> 2 ^ b" by simp
    then have "(2 * n + 1) * 2 ^ a \<le> (2 * n + 1) * 2 ^ b"
      by (intro mult_le_mono) simp_all
    with a b show False by linarith
  next
    case False
    then have "Suc b \<le> a" by simp
    then have "(2::nat) ^ Suc b \<le> 2 ^ a"
      by (intro power_increasing) simp_all
    then have "(n + 1) * 2 ^ Suc b \<le> (n + 1) * 2 ^ a"
      by (intro mult_le_mono) simp_all
    moreover have "(n + 1) * 2 ^ a \<le> (2 * n) * 2 ^ a"
      by (intro mult_le_mono) (use assms in simp_all)
    moreover have "(2 * n + 1 + 1) * 2 ^ b = (n + 1) * 2 ^ Suc b"
      by simp
    ultimately show False using a b by linarith
  qed
qed

lemma sz_id: "x < 2 ^ 64 \<Longrightarrow> sz x = x"
  by (simp add: sz_def)

lemma tree_ok_agree:
  "length d1 = length d2 \<Longrightarrow> (\<forall>k \<in> subtree n. d1 ! k = d2 ! k)
   \<Longrightarrow> tree_ok lift combine xs d1 n l r = tree_ok lift combine xs d2 n l r"
proof (induction lift combine xs d1 n l r rule: tree_ok.induct)
  case (1 lift combine xs d n l r)
  have self: "d ! n = d2 ! n"
    using 1(4) subtree_self by blast
  have L: "\<forall>k \<in> subtree (2 * n). d ! k = d2 ! k"
    using 1(4) subtree_left by blast
  have R: "\<forall>k \<in> subtree (2 * n + 1). d ! k = d2 ! k"
    using 1(4) subtree_right by blast
  have A: "tree_ok lift combine xs d n l r =
     (n < length d \<and> d ! n = Some (tree_value lift combine xs l r) \<and>
      (if l < r
       then tree_ok lift combine xs d (2 * n) l ((l + r) div 2) \<and>
            tree_ok lift combine xs d (2 * n + 1) ((l + r) div 2 + 1) r
       else True))"
    by (rule tree_ok.simps)
  have B: "tree_ok lift combine xs d2 n l r =
     (n < length d2 \<and> d2 ! n = Some (tree_value lift combine xs l r) \<and>
      (if l < r
       then tree_ok lift combine xs d2 (2 * n) l ((l + r) div 2) \<and>
            tree_ok lift combine xs d2 (2 * n + 1) ((l + r) div 2 + 1) r
       else True))"
    by (rule tree_ok.simps)
  show ?case
  proof (cases "l < r")
    case True
    show ?thesis
      unfolding A B using 1(1) [OF True 1(3) L] 1(2) [OF True 1(3) R] self 1(3) True
      by simp
  next
    case False
    show ?thesis
      unfolding A B using self 1(3) False by simp
  qed
qed

lemma merge_childs_ok:
  assumes "2 * n + 1 < 2 ^ 64" "2 * n + 1 < length (data s)"
    "data s ! (2 * n) = Some a" "data s ! (2 * n + 1) = Some b"
  shows "merge_childs combine n s = Inr (s\<lparr>data := (data s)[n := Some (combine a b)]\<rparr>)"
  using assms
  by (simp add: merge_childs_def sz_id read_data_def value_of_def write_data_def bindE_simps)

lemma build_tree_correct:
  assumes "node_inv N n l r" "size_ok N" "N \<le> length xs"
  shows "length (data s) = 4 * N + 1 \<Longrightarrow>
    \<exists>d. build_tree lift combine n l r xs s = Some (Inr (s\<lparr>data := d\<rparr>)) \<and>
        length d = length (data s) \<and>
        (\<forall>k. k \<notin> subtree n \<longrightarrow> d ! k = data s ! k) \<and>
        tree_ok lift combine xs d n l r"
  using assms(1)
proof (induction n l r arbitrary: s rule: node_inv_induct)
  case (node n l r)
  have N64: "4 * N + 1 < 2 ^ 64"
    using assms(2) by (simp add: size_ok_def)
  have inv: "l \<le> r" "r < N" "1 \<le> n" "n < 4 * N"
    using node.hyps unfolding node_inv_def by blast+
  show ?case
  proof (cases "l < r")
    case False
    then have lr: "l = r" using inv by simp
    let ?d = "(data s)[n := Some (lift (xs ! l))]"
    have "build_tree lift combine n l r xs s = Some (Inr (s\<lparr>data := ?d\<rparr>))"
      using lr inv assms(3) node.prems
      by (subst build_tree.simps) (simp add: write_data_def)
    moreover have "tree_ok lift combine xs ?d n l r"
      using lr inv node.prems
      by (subst tree_ok.simps, subst tree_value.simps) simp
    moreover have "\<forall>k. k \<notin> subtree n \<longrightarrow> ?d ! k = data s ! k"
      by (metis nth_list_update_neq subtree_self)
    ultimately show ?thesis by (intro exI [of _ ?d]) simp
  next
    case True
    let ?mid = "(l + r) div 2"
    have child: "2 * n + 1 < 4 * N"
      by (rule node_inv_internal [OF node.hyps True])
    have s1: "sz (l + r) div 2 = ?mid" "sz (2 * n) = 2 * n" "sz (2 * n + 1) = 2 * n + 1"
      "sz (?mid + 1) = ?mid + 1"
      using inv child N64 True by (simp_all add: sz_id)
    obtain d1 where d1:
      "build_tree lift combine (2 * n) l ?mid xs s = Some (Inr (s\<lparr>data := d1\<rparr>))"
      "length d1 = length (data s)"
      "\<forall>k. k \<notin> subtree (2 * n) \<longrightarrow> d1 ! k = data s ! k"
      "tree_ok lift combine xs d1 (2 * n) l ?mid"
      using node.IH(1) [OF True node.prems] by blast
    have len1: "length (data (s\<lparr>data := d1\<rparr>)) = 4 * N + 1"
      using d1(2) node.prems by simp
    obtain d2 where d2:
      "build_tree lift combine (2 * n + 1) (?mid + 1) r xs (s\<lparr>data := d1\<rparr>)
         = Some (Inr (s\<lparr>data := d2\<rparr>))"
      "length d2 = length d1"
      "\<forall>k. k \<notin> subtree (2 * n + 1) \<longrightarrow> d2 ! k = d1 ! k"
      "tree_ok lift combine xs d2 (2 * n + 1) (?mid + 1) r"
      using node.IH(2) [OF True len1] by auto
    have disj: "\<forall>k \<in> subtree (2 * n). k \<notin> subtree (2 * n + 1)"
      using subtree_disjoint [OF inv(3)] by blast
    have agL: "\<forall>k \<in> subtree (2 * n). d2 ! k = d1 ! k"
      using d2(3) disj by auto
    have okL: "tree_ok lift combine xs d2 (2 * n) l ?mid"
      unfolding tree_ok_agree [OF d2(2) agL] by (rule d1(4))
    let ?a = "tree_value lift combine xs l ?mid"
    let ?b = "tree_value lift combine xs (?mid + 1) r"
    have va: "d2 ! (2 * n) = Some ?a"
      using okL by (subst (asm) tree_ok.simps) simp
    have vb: "d2 ! (2 * n + 1) = Some ?b"
      using d2(4) by (subst (asm) tree_ok.simps) simp
    let ?d = "d2[n := Some (combine ?a ?b)]"
    have len2: "length d2 = 4 * N + 1"
      using d2(2) d1(2) node.prems by simp
    have m: "merge_childs combine n (s\<lparr>data := d2\<rparr>) = Inr (s\<lparr>data := ?d\<rparr>)"
      using merge_childs_ok [of n "s\<lparr>data := d2\<rparr>" ?a ?b combine] va vb child N64 len2
      by simp
    have run: "build_tree lift combine n l r xs s = Some (Inr (s\<lparr>data := ?d\<rparr>))"
      using True d1(1) d2(1) m s1
      by (subst build_tree.simps) (simp add: Let_def bindR_simps)
    have nL: "n \<notin> subtree (2 * n)" and nR: "n \<notin> subtree (2 * n + 1)"
      using subtree_not_parent_left [OF inv(3)] subtree_not_parent_right by auto
    have lenD: "length ?d = length d2"
      by simp
    have agL': "\<forall>k \<in> subtree (2 * n). ?d ! k = d2 ! k"
      using nL by (metis nth_list_update_neq)
    have agR': "\<forall>k \<in> subtree (2 * n + 1). ?d ! k = d2 ! k"
      using nR by (metis nth_list_update_neq)
    have okL': "tree_ok lift combine xs ?d (2 * n) l ?mid"
      unfolding tree_ok_agree [OF lenD agL'] by (rule okL)
    have okR': "tree_ok lift combine xs ?d (2 * n + 1) (?mid + 1) r"
      unfolding tree_ok_agree [OF lenD agR'] by (rule d2(4))
    have val: "tree_value lift combine xs l r = combine ?a ?b"
      using True by (subst tree_value.simps) simp
    have ok: "tree_ok lift combine xs ?d n l r"
      using okL' okR' True inv len2 val by (subst tree_ok.simps) simp
    have frame: "\<forall>k. k \<notin> subtree n \<longrightarrow> ?d ! k = data s ! k"
    proof (intro allI impI)
      fix k assume k: "k \<notin> subtree n"
      then have "k \<noteq> n" "k \<notin> subtree (2 * n)" "k \<notin> subtree (2 * n + 1)"
        using subtree_self subtree_left subtree_right by blast+
      then show "?d ! k = data s ! k"
        using d1(3) d2(3) by simp
    qed
    show ?thesis
      using run ok frame len2 node.prems by (intro exI [of _ ?d]) simp
  qed
qed

section \<open>Trees without pending tasks\<close>

lemma foldl_assoc:
  "associative combine \<Longrightarrow> foldl combine (combine a b) ys = combine a (foldl combine b ys)"
  by (induction ys arbitrary: b) (simp_all add: associative_def)

lemma combine_range_single: "combine_range combine f l l = f l"
  by (simp add: combine_range_def)

lemma combine_range_split:
  assumes "associative combine" "l \<le> m" "m < r"
  shows "combine_range combine f l r
         = combine (combine_range combine f l m) (combine_range combine f (Suc m) r)"
proof -
  have "[Suc l..<Suc m + (r - m)] = [Suc l..<Suc m] @ [Suc m..<Suc m + (r - m)]"
    by (rule upt_add_eq_append) (use assms(2) in simp)
  moreover have "Suc m + (r - m) = Suc r"
    using assms(3) by simp
  moreover have "[Suc m..<Suc r] = Suc m # [Suc (Suc m)..<Suc r]"
    using assms(3) by (simp add: upt_conv_Cons)
  ultimately have "[Suc l..<Suc r] = [Suc l..<Suc m] @ Suc m # [Suc (Suc m)..<Suc r]"
    by simp
  then show ?thesis
    by (simp add: combine_range_def foldl_assoc [OF assms(1)])
qed

lemma tree_value_combine_range:
  assumes "associative combine"
  shows "l \<le> r \<Longrightarrow> tree_value lift combine xs l r = combine_range combine (\<lambda>i. lift (xs ! i)) l r"
proof (induction "r - l" arbitrary: l r rule: less_induct)
  case less
  show ?case
  proof (cases "l < r")
    case False
    then have "l = r" using less.prems by simp
    then show ?thesis
      by (subst tree_value.simps) (simp add: combine_range_single)
  next
    case True
    let ?mid = "(l + r) div 2"
    have m: "l \<le> ?mid" "?mid < r" using True by linarith+
    have L: "tree_value lift combine xs l ?mid = combine_range combine (\<lambda>i. lift (xs ! i)) l ?mid"
      by (rule less.hyps) (use m in linarith)+
    have R: "tree_value lift combine xs (?mid + 1) r
             = combine_range combine (\<lambda>i. lift (xs ! i)) (?mid + 1) r"
      by (rule less.hyps) (use m in linarith)+
    show ?thesis
      using True L R combine_range_split [OF assms m, of "\<lambda>i. lift (xs ! i)"]
      by (subst tree_value.simps) simp
  qed
qed

lemma pushdown_clean:
  assumes "n < length (lazyTasks s)" "queues_empty s"
  shows "execute_lazy_tasks_and_pushdown n l r s = Inr s"
proof -
  have e: "lazyTasks s ! n = []"
    using assms by (simp add: queues_empty_def list_all_length)
  then have "(lazyTasks s)[n := []] = lazyTasks s"
    by (metis list_update_id)
  then show ?thesis
    using assms(1) e by (simp add: execute_lazy_tasks_and_pushdown_def bindE_simps)
qed

lemma query_tree_clean:
  assumes inv: "node_inv N n l r" and N: "size_ok N" and cl: "clean lazy N s"
  shows "tree_ok lift combine xs (data s) n l r \<Longrightarrow>
    query_tree lazy combine n l r ql qr s
      = Some (Inr (query_value lift combine xs l r ql qr, s))"
  using inv
proof (induction n l r rule: node_inv_induct)
  case (node n l r)
  have N64: "4 * N + 1 < 2 ^ 64"
    using N by (simp add: size_ok_def)
  have inv: "l \<le> r" "r < N" "1 \<le> n" "n < 4 * N"
    using node.hyps unfolding node_inv_def by blast+
  have ok: "n < length (data s)" "data s ! n = Some (tree_value lift combine xs l r)"
    using node.prems by (subst (asm) tree_ok.simps, simp)+
  have push: "(if lazy then Some (execute_lazy_tasks_and_pushdown n l r s) else Some (Inr s))
              = Some (Inr s)"
    using cl inv pushdown_clean [of n s l r] by (simp add: clean_def)
  consider (outside) "l > qr \<or> r < ql"
    | (inside) "\<not> (l > qr \<or> r < ql)" "ql \<le> l \<and> r \<le> qr"
    | (partial) "\<not> (l > qr \<or> r < ql)" "\<not> (ql \<le> l \<and> r \<le> qr)"
    by blast
  then show ?case
  proof cases
    case outside
    then show ?thesis
      by (subst query_tree.simps, subst query_value.simps) (simp add: push bindR_simps)
  next
    case inside
    then show ?thesis
      using ok
      by (subst query_tree.simps, subst query_value.simps)
         (simp add: push bindR_simps read_data_def bindE_simps)
  next
    case partial
    then have lr: "l < r" using inv by linarith
    let ?mid = "(l + r) div 2"
    have child: "2 * n + 1 < 4 * N"
      by (rule node_inv_internal [OF node.hyps lr])
    have s1: "sz (l + r) div 2 = ?mid" "sz (2 * n) = 2 * n" "sz (2 * n + 1) = 2 * n + 1"
      "sz (?mid + 1) = ?mid + 1"
      using inv child N64 lr by (simp_all add: sz_id)
    have okc: "tree_ok lift combine xs (data s) (2 * n) l ?mid"
      "tree_ok lift combine xs (data s) (2 * n + 1) (?mid + 1) r"
      using node.prems lr by (subst (asm) tree_ok.simps, simp)+
    define lq where "lq = query_value lift combine xs l ?mid ql qr"
    define rq where "rq = query_value lift combine xs (?mid + 1) r ql qr"
    have L: "query_tree lazy combine (2 * n) l ?mid ql qr s = Some (Inr (lq, s))"
      unfolding lq_def by (rule node.IH(1) [OF lr okc(1)])
    have R: "query_tree lazy combine (2 * n + 1) (?mid + 1) r ql qr s = Some (Inr (rq, s))"
      unfolding rq_def by (rule node.IH(2) [OF lr okc(2)])
    have val: "query_value lift combine xs l r ql qr = join_queries combine lq rq"
      unfolding lq_def rq_def
      by (subst query_value.simps) (simp only: partial lr if_False if_True)
    have unfold: "query_tree lazy combine n l r ql qr s =
        bindR (query_tree lazy combine (2 * n) l ?mid ql qr s) (\<lambda>(left_query, s1).
        bindR (query_tree lazy combine (2 * n + 1) (?mid + 1) r ql qr s1) (\<lambda>(right_query, s2).
        Some (Inr (join_queries combine left_query right_query, s2))))"
      by (subst query_tree.simps) (simp only: push bindR_simps partial if_False Let_def s1)
    show ?thesis
      unfolding unfold val using L R
      by (simp add: bindR_simps)
  qed
qed

lemma query_value_combine_range:
  assumes assoc: "associative combine" and q: "ql \<le> qr"
  shows "l \<le> r \<Longrightarrow> query_value lift combine xs l r ql qr =
    (if l > qr \<or> r < ql then None
     else Some (combine_range combine (\<lambda>i. lift (xs ! i)) (max l ql) (min r qr)))"
proof (induction "r - l" arbitrary: l r rule: less_induct)
  case less
  let ?f = "\<lambda>i. lift (xs ! i)"
  consider (outside) "l > qr \<or> r < ql"
    | (inside) "\<not> (l > qr \<or> r < ql)" "ql \<le> l \<and> r \<le> qr"
    | (partial) "\<not> (l > qr \<or> r < ql)" "\<not> (ql \<le> l \<and> r \<le> qr)"
    by blast
  then show ?case
  proof cases
    case outside
    then show ?thesis
      by (subst query_value.simps) simp
  next
    case inside
    then have "max l ql = l" "min r qr = r" by simp_all
    then show ?thesis
      using inside tree_value_combine_range [OF assoc less.prems, of lift xs]
      by (subst query_value.simps) simp
  next
    case partial
    then have lr: "l < r" using less.prems by linarith
    let ?mid = "(l + r) div 2"
    have m: "l \<le> ?mid" "?mid < r" using lr by linarith+
    define lq where "lq = query_value lift combine xs l ?mid ql qr"
    define rq where "rq = query_value lift combine xs (?mid + 1) r ql qr"
    have L: "lq = (if l > qr \<or> ?mid < ql then None
         else Some (combine_range combine ?f (max l ql) (min ?mid qr)))"
      unfolding lq_def by (rule less.hyps) (use m in linarith)+
    have R: "rq = (if ?mid + 1 > qr \<or> r < ql then None
         else Some (combine_range combine ?f (max (?mid + 1) ql) (min r qr)))"
      unfolding rq_def by (rule less.hyps) (use m in linarith)+
    have val: "query_value lift combine xs l r ql qr = join_queries combine lq rq"
      unfolding lq_def rq_def
      by (subst query_value.simps) (simp only: partial lr if_False if_True)
    have join: "join_queries combine lq rq
      = Some (combine_range combine ?f (max l ql) (min r qr))"
    proof -
      consider (both) "ql \<le> ?mid" "?mid + 1 \<le> qr" | (left) "qr \<le> ?mid" | (right) "?mid < ql"
        by linarith
      then show ?thesis
      proof cases
        case both
        have "combine_range combine ?f (max l ql) (min r qr)
              = combine (combine_range combine ?f (max l ql) ?mid)
                        (combine_range combine ?f (Suc ?mid) (min r qr))"
          by (rule combine_range_split [OF assoc]) (use both m partial in simp_all)
        then show ?thesis
          using both partial m by (simp add: L R max_def min_def)
      next
        case left
        then show ?thesis
          using partial m q by (simp add: L R max_def min_def)
      next
        case right
        then show ?thesis
          using partial m q by (simp add: L R max_def min_def)
      qed
    qed
    show ?thesis
      unfolding val join using partial(1) by simp
  qed
qed

lemma sz_sub_id: "b \<le> a \<Longrightarrow> a < 2 ^ 64 \<Longrightarrow> sz_sub a b = a - b"
proof -
  assume a: "b \<le> a" "a < 2 ^ 64"
  have "a + 2 ^ 64 - b = (a - b) + 2 ^ 64"
    using a(1) by simp
  moreover have "((a - b) + 2 ^ 64) mod 2 ^ 64 = (a - b) mod 2 ^ 64"
    by (rule mod_add_self2)
  moreover have "(a - b) mod 2 ^ 64 = a - b"
    using a(2) by (intro mod_less) linarith
  ultimately show ?thesis
    unfolding sz_sub_def by (simp only:)
qed

lemma query_value_point:
  "l \<le> i \<Longrightarrow> i \<le> r \<Longrightarrow> query_value lift combine xs l r i i = Some (lift (xs ! i))"
proof (induction "r - l" arbitrary: l r rule: less_induct)
  case less
  show ?case
  proof (cases "l < r")
    case False
    then have eq: "l = i" "r = i" using less.prems by simp_all
    have "query_value lift combine xs i i i i = Some (lift (xs ! i))"
      by (subst query_value.simps, subst tree_value.simps) simp
    then show ?thesis
      unfolding eq .
  next
    case True
    let ?mid = "(l + r) div 2"
    have m: "l \<le> ?mid" "?mid < r" using True by linarith+
    show ?thesis
    proof (cases "i \<le> ?mid")
      case le: True
      have L: "query_value lift combine xs l ?mid i i = Some (lift (xs ! i))"
        by (rule less.hyps) (use m le less.prems in linarith)+
      have R: "query_value lift combine xs (?mid + 1) r i i = None"
        using le by (subst query_value.simps) simp
      have c: "\<not> (l > i \<or> r < i)" "\<not> (i \<le> l \<and> r \<le> i)"
        using True less.prems by linarith+
      show ?thesis
        by (subst query_value.simps) (simp only: c True if_False if_True L R join_queries.simps)
    next
      case gt: False
      have R: "query_value lift combine xs (?mid + 1) r i i = Some (lift (xs ! i))"
        by (rule less.hyps) (use m gt less.prems in linarith)+
      have L: "query_value lift combine xs l ?mid i i = None"
        using gt by (subst query_value.simps) simp
      have c: "\<not> (l > i \<or> r < i)" "\<not> (i \<le> l \<and> r \<le> i)"
        using True less.prems by linarith+
      show ?thesis
        by (subst query_value.simps) (simp only: c True if_False if_True L R join_queries.simps)
    qed
  qed
qed

lemma built_from_clean: "built_from lazy lift combine xs s \<Longrightarrow> clean lazy (length xs) s"
  by (auto simp: built_from_def clean_def queues_empty_def list_all_iff)

lemma construct_correct:
  assumes "size_ok N" "N \<le> length xs"
  shows "\<exists>d. construct lazy lift combine N xs
           = Some (Inr \<lparr>tree_size = N, data = d,
                lazyTasks = (if lazy then replicate (4 * N + 1) [] else [])\<rparr>) \<and>
         length d = 4 * N + 1 \<and> tree_ok lift combine xs d 1 0 (N - 1)"
proof -
  have N: "1 \<le> N" "4 * N + 1 < 2 ^ 64"
    using assms(1) by (simp_all add: size_ok_def)
  have sz1: "sz_sub N 1 = N - 1"
    using N by (intro sz_sub_id) simp_all
  have sz2: "get_segtree_size N = 4 * N + 1"
    using N by (simp add: get_segtree_size_def sz_id)
  let ?s = "\<lparr>tree_size = N, data = replicate (4 * N + 1) None,
             lazyTasks = (if lazy then replicate (4 * N + 1) [] else [])\<rparr>"
  have "length (data ?s) = 4 * N + 1" by simp
  from build_tree_correct [OF node_inv_root [OF N(1)] assms this, of lift combine]
  obtain d where d: "build_tree lift combine 1 0 (N - 1) xs ?s = Some (Inr (?s\<lparr>data := d\<rparr>))"
    "length d = 4 * N + 1" "tree_ok lift combine xs d 1 0 (N - 1)"
    by auto
  show ?thesis
    using d sz1 sz2 by (intro exI [of _ d]) (cases lazy, simp_all add: construct_def)
qed

lemma SegmentTree_vector_correct:
  assumes "size_ok (length xs)"
  shows "\<exists>s. SegmentTree_vector lazy lift combine xs = Some (Inr s) \<and>
             built_from lazy lift combine xs s"
proof -
  have "sz (length xs) = length xs"
    using assms by (simp add: size_ok_def sz_id)
  then show ?thesis
    using construct_correct [OF assms order_refl, of lazy lift combine]
    by (auto simp: SegmentTree_vector_def built_from_def)
qed

lemma query_built:
  assumes "size_ok (length xs)" "built_from lazy lift combine xs s" "r < length xs"
  shows "query_tree lazy combine 1 0 (sz_sub (tree_size s) 1) l r s
    = Some (Inr (query_value lift combine xs 0 (length xs - 1) l r, s))"
proof -
  have N: "1 \<le> length xs" "4 * length xs + 1 < 2 ^ 64"
    using assms(1) by (simp_all add: size_ok_def)
  have "tree_size s = length xs"
    using assms(2) by (simp add: built_from_def)
  then have sz1: "sz_sub (tree_size s) 1 = length xs - 1"
    using N by (simp add: sz_sub_id del: One_nat_def)
  show ?thesis
    unfolding sz1
    by (rule query_tree_clean [OF node_inv_root [OF N(1)] assms(1) built_from_clean [OF assms(2)]])
       (use assms(2) in \<open>simp add: built_from_def\<close>)
qed

section \<open>Queries before the first update\<close>

lemma query_fresh:
  assumes "size_ok (length xs)" "built_from lazy lift combine xs s" "l \<le> r" "r < length xs"
  shows "query lazy combine l r s
    = Some (Inr (query_value lift combine xs 0 (length xs - 1) l r, s))"
proof -
  have "tree_size s = length xs"
    using assms(2) by (simp add: built_from_def)
  then show ?thesis
    using assms(3,4) query_built [OF assms(1,2,4), of l]
    by (simp add: query_def)
qed

lemma query_pos_fresh:
  assumes "size_ok (length xs)" "built_from lazy lift combine xs s" "i < length xs"
  shows "query_pos lazy combine i s
    = Some (Inr (query_value lift combine xs 0 (length xs - 1) i i, s))"
proof -
  have "tree_size s = length xs"
    using assms(2) by (simp add: built_from_def)
  then show ?thesis
    using assms(3) query_built [OF assms(1,2,3), of i]
    by (simp add: query_pos_def)
qed

lemma run_ops_fresh:
  assumes "size_ok (length xs)" "built_from lazy lift combine xs s"
  shows "list_all (valid_query (length xs)) ops \<Longrightarrow>
    run_ops lazy combine ops s = Some (Inr (map (expected lift combine xs) ops, s))"
proof (induction ops)
  case Nil
  show ?case by simp
next
  case (Cons op ops)
  then have IH: "run_ops lazy combine ops s = Some (Inr (map (expected lift combine xs) ops, s))"
    by simp
  show ?case
  proof (cases op)
    case (Query l r)
    then have "l \<le> r" "r < length xs" using Cons.prems by simp_all
    then show ?thesis
      using Query IH query_fresh [OF assms] by (simp add: bindR_simps)
  next
    case (QueryPos i)
    then have "i < length xs" using Cons.prems by simp
    then show ?thesis
      using QueryPos IH query_pos_fresh [OF assms] by (simp add: bindR_simps)
  next
    case (Update u l r)
    then show ?thesis using Cons.prems by simp
  next
    case (UpdatePos u i)
    then show ?thesis using Cons.prems by simp
  qed
qed

lemma answers_fresh:
  assumes "size_ok (length xs)" "list_all (valid_query (length xs)) ops"
  shows "answers lazy lift combine xs ops = Some (Inr (map (expected lift combine xs) ops))"
proof -
  obtain s where s: "SegmentTree_vector lazy lift combine xs = Some (Inr s)"
    "built_from lazy lift combine xs s"
    using SegmentTree_vector_correct [OF assms(1)] by blast
  show ?thesis
    using s(1) run_ops_fresh [OF assms(1) s(2) assms(2)]
    by (simp add: answers_def bindR_simps)
qed

text \<open>
  Before the first update the answers do not depend on lazy propagation: for every
  sequence of valid queries issued to the two trees built from the same non-empty input,
  every query returns and both trees give the same answers.
\<close>

lemma answers_before_updates:
  assumes "size_ok (length xs)" "list_all (valid_query (length xs)) ops"
  shows "\<exists>vs. length vs = length ops \<and>
    answers False lift combine xs ops = Some (Inr vs) \<and>
    answers True lift combine xs ops = Some (Inr vs)"
  using answers_fresh [OF assms, of True lift combine] answers_fresh [OF assms, of False lift combine]
  by simp

text \<open>
  Before the first update, on a tree built from a non-empty sequence with an associative
  combine, \<open>query(i)\<close> answers the lift of element \<open>i\<close> and \<open>query(l, r)\<close> answers the
  left-to-right combine of the lifts of the elements \<open>l, ..., r\<close>, which are the answers
  \<open>query(i)\<close>; the queries leave the tree as it is.
\<close>

lemma query_before_updates:
  assumes "size_ok (length xs)" "associative combine"
  shows "\<exists>s. SegmentTree_vector lazy lift combine xs = Some (Inr s) \<and>
    (\<forall>i < length xs. query_pos lazy combine i s = Some (Inr (Some (lift (xs ! i)), s))) \<and>
    (\<forall>l r. l \<le> r \<and> r < length xs \<longrightarrow>
       query lazy combine l r s
         = Some (Inr (Some (combine_range combine (\<lambda>i. lift (xs ! i)) l r), s)))"
proof -
  obtain s where s: "SegmentTree_vector lazy lift combine xs = Some (Inr s)"
    "built_from lazy lift combine xs s"
    using SegmentTree_vector_correct [OF assms(1)] by blast
  have N: "1 \<le> length xs"
    using assms(1) by (simp add: size_ok_def)
  have pos: "query_pos lazy combine i s = Some (Inr (Some (lift (xs ! i)), s))"
    if "i < length xs" for i
    using query_pos_fresh [OF assms(1) s(2) that]
      query_value_point [of 0 i "length xs - 1" lift combine xs] that
    by simp
  have range: "query lazy combine l r s
         = Some (Inr (Some (combine_range combine (\<lambda>i. lift (xs ! i)) l r), s))"
    if "l \<le> r" "r < length xs" for l r
  proof -
    have b: "min (length xs - 1) r = r" "max 0 l = l"
      using that by (simp_all add: min_absorb2)
    have c: "\<not> (0 > r \<or> length xs - 1 < l)"
      using that by linarith
    have "query_value lift combine xs 0 (length xs - 1) l r
          = Some (combine_range combine (\<lambda>i. lift (xs ! i)) l r)"
      using query_value_combine_range [OF assms(2) that(1), of 0 "length xs - 1" lift xs]
      by (simp only: b c if_False)
    then show ?thesis
      using query_fresh [OF assms(1) s(2) that] by simp
  qed
  show ?thesis
    using s(1) pos range by blast
qed

section \<open>Queries after a lazy update below the root\<close>

text \<open>
  Claim C1 (a tree without lazy propagation and an identical tree with lazy propagation
  give identical results for every query of every sequence of valid updates and
  queries). Over \<open>[1, 2]\<close> with sums, the point update "add 10" at position 0 makes the
  elements 11 and 2, and \<open>query(0, 1)\<close> follows. The tree with lazy propagation queues the
  task at node 2, the leaf of position 0, without applying it, and recombines the root
  from the values its children hold, 1 and 2: the query answers 3. The tree without lazy
  propagation does not perform the update: the rebuild ends in the branch
  "Invalid updater type".
\<close>

theorem lazy_and_rebuild_disagree:
  "answers True id (+) [1, 2 :: int] [UpdatePos (PointUpdater (\<lambda>q l. q + 10)) 0, Query 0 1]
     = Some (Inr [Some 3]) \<and>
   answers False id (+) [1, 2 :: int] [UpdatePos (PointUpdater (\<lambda>q l. q + 10)) 0, Query 0 1]
     = Some (Inl InvalidUpdaterType)"
  by (simp add: eval_simps cong: bindR_cong_weak bindE_cong_weak)

text \<open>
  Claim C2 (for every built tree, \<open>query(l, r)\<close> is the left-to-right combine of the
  answers \<open>query(i)\<close> for \<open>i\<close> from \<open>l\<close> to \<open>r\<close>; before any update \<open>query(i)\<close> is the lift
  of element \<open>i\<close>). With lazy propagation, over \<open>[1, 2]\<close> with sums and after the point
  update "add 10" at position 0, \<open>query(0, 1)\<close> answers the value 3 the root was
  recombined to from the children not yet updated, while \<open>query(0)\<close> and \<open>query(1)\<close>
  answer 11 and 2, whose combine is 13.
\<close>

theorem range_query_after_lazy_update:
  "answers True id (+) [1, 2 :: int]
     [UpdatePos (PointUpdater (\<lambda>q l. q + 10)) 0, Query 0 1, QueryPos 0, QueryPos 1]
     = Some (Inr [Some 3, Some 11, Some 2]) \<and>
   combine_range (+) (\<lambda>i. [11, 2 :: int] ! i) 0 1 = 13"
  by (simp add: eval_simps combine_range_def cong: bindR_cong_weak bindE_cong_weak)

section \<open>Queries without lazy propagation\<close>

lemma bindR_eq_InrD:
  assumes "bindR m f = Some (Inr b)"
  obtains a where "m = Some (Inr a)" "f a = Some (Inr b)"
proof (cases m)
  case None
  then show ?thesis using assms by (simp add: bindR_simps)
next
  case (Some x)
  show ?thesis
  proof (cases x)
    case (Inl e)
    then show ?thesis using assms Some by (simp add: bindR_simps)
  next
    case (Inr a)
    then show ?thesis using assms Some that by (simp add: bindR_simps)
  qed
qed

lemma query_tree_nonlazy_same_state_aux:
  assumes "query_tree lazy combine n l r ql qr s = Some y"
  shows "\<not> lazy \<longrightarrow> (\<forall>v s'. y = Inr (v, s') \<longrightarrow> s' = s)"
proof (rule query_tree.raw_induct
    [where P = "\<lambda>lazy combine n l r ql qr s y. \<not> lazy \<longrightarrow> (\<forall>v s'. y = Inr (v, s') \<longrightarrow> s' = s)",
     OF _ assms], intro impI allI)
  fix qt :: "bool \<Rightarrow> ('a \<Rightarrow> 'a \<Rightarrow> 'a) \<Rightarrow> nat \<Rightarrow> nat \<Rightarrow> nat \<Rightarrow> nat \<Rightarrow> nat \<Rightarrow> 'a segtree
     \<Rightarrow> (error + 'a option \<times> 'a segtree) option"
  fix lazy combine n l r ql qr s y v s'
  assume IH: "\<And>lazy combine n l r ql qr s y. qt lazy combine n l r ql qr s = Some y
      \<Longrightarrow> \<not> lazy \<longrightarrow> (\<forall>v s'. y = Inr (v, s') \<longrightarrow> s' = s)"
  assume run: "bindR (if lazy then Some (execute_lazy_tasks_and_pushdown n l r s) else Some (Inr s))
      (\<lambda>s0. if qr < l \<or> r < ql then Some (Inr (None, s0))
            else if ql \<le> l \<and> r \<le> qr
                 then Some (bindE (read_data n s0) (\<lambda>d. Inr (d, s0)))
                 else let mid = sz (l + r) div 2
                      in bindR (qt lazy combine (sz (2 * n)) l mid ql qr s0)
                          (\<lambda>(left_query, s1).
                              bindR (qt lazy combine (sz (sz (2 * n) + 1)) (sz (mid + 1)) r ql qr s1)
                               (\<lambda>(right_query, s2).
                                   Some (Inr (join_queries combine left_query right_query, s2)))))
      = Some y"
  assume nl: "\<not> lazy" and y: "y = Inr (v, s')"
  note 1 = IH run nl y
  let ?mid = "sz (l + r) div 2"
  consider (outside) "qr < l \<or> r < ql"
    | (inside) "\<not> (qr < l \<or> r < ql)" "ql \<le> l \<and> r \<le> qr"
    | (partial) "\<not> (qr < l \<or> r < ql)" "\<not> (ql \<le> l \<and> r \<le> qr)"
    by blast
  then show "s' = s"
  proof cases
    case outside
    then show ?thesis
      using 1(2,3,4) by (simp add: bindR_simps)
  next
    case inside
    then show ?thesis
      using 1(2,3,4) by (auto simp: bindR_simps read_data_def bindE_simps split: if_splits)
  next
    case partial
    have eq: "bindR (qt lazy combine (sz (2 * n)) l ?mid ql qr s) (\<lambda>(left_query, s1).
        bindR (qt lazy combine (sz (sz (2 * n) + 1)) (sz (?mid + 1)) r ql qr s1)
          (\<lambda>(right_query, s2). Some (Inr (join_queries combine left_query right_query, s2))))
        = Some (Inr (v, s'))"
      using 1(2,3,4) partial by (simp add: bindR_simps Let_def)
    from eq obtain a where a: "qt lazy combine (sz (2 * n)) l ?mid ql qr s = Some (Inr a)"
      "(case a of (left_query, s1) \<Rightarrow>
        bindR (qt lazy combine (sz (sz (2 * n) + 1)) (sz (?mid + 1)) r ql qr s1)
          (\<lambda>(right_query, s2). Some (Inr (join_queries combine left_query right_query, s2))))
        = Some (Inr (v, s'))"
      by (rule bindR_eq_InrD)
    obtain lq s1 where a_eq: "a = (lq, s1)" by (cases a)
    have s1: "s1 = s"
      using 1(1) [OF a(1)] 1(3) a_eq by simp
    from a(2) obtain b where b: "qt lazy combine (sz (sz (2 * n) + 1)) (sz (?mid + 1)) r ql qr s1 = Some (Inr b)"
      "(case b of (right_query, s2) \<Rightarrow> Some (Inr (join_queries combine lq right_query, s2)))
        = Some (Inr (v, s'))"
      unfolding a_eq by (auto elim: bindR_eq_InrD)
    obtain rq s2 where b_eq: "b = (rq, s2)" by (cases b)
    have s2: "s2 = s1"
      using 1(1) [OF b(1)] 1(3) b_eq by simp
    show ?thesis
      using b(2) s1 s2 b_eq by simp
  qed
qed

lemma query_tree_nonlazy_same_state:
  "query_tree False combine n l r ql qr s = Some (Inr (v, s')) \<Longrightarrow> s' = s"
  using query_tree_nonlazy_same_state_aux [of False combine n l r ql qr s "Inr (v, s')"]
  by simp

lemma query_tree_nonlazy_total:
  assumes inv: "node_inv N n l r" and N: "size_ok N" and len: "length (data s) = 4 * N + 1"
  shows "\<exists>v. query_tree False combine n l r ql qr s = Some (Inr (v, s))"
  using inv
proof (induction n l r rule: node_inv_induct)
  case (node n l r)
  have N64: "4 * N + 1 < 2 ^ 64"
    using N by (simp add: size_ok_def)
  have inv: "l \<le> r" "r < N" "1 \<le> n" "n < 4 * N"
    using node.hyps unfolding node_inv_def by blast+
  consider (outside) "l > qr \<or> r < ql"
    | (inside) "\<not> (l > qr \<or> r < ql)" "ql \<le> l \<and> r \<le> qr"
    | (partial) "\<not> (l > qr \<or> r < ql)" "\<not> (ql \<le> l \<and> r \<le> qr)"
    by blast
  then show ?case
  proof cases
    case outside
    then show ?thesis
      by (subst query_tree.simps) (simp add: bindR_simps)
  next
    case inside
    then show ?thesis
      using inv len
      by (subst query_tree.simps) (simp add: bindR_simps read_data_def bindE_simps)
  next
    case partial
    then have lr: "l < r" using inv by linarith
    let ?mid = "(l + r) div 2"
    have child: "2 * n + 1 < 4 * N"
      by (rule node_inv_internal [OF node.hyps lr])
    have s1: "sz (l + r) div 2 = ?mid" "sz (2 * n) = 2 * n" "sz (2 * n + 1) = 2 * n + 1"
      "sz (?mid + 1) = ?mid + 1"
      using inv child N64 lr by (simp_all add: sz_id)
    obtain lq where L: "query_tree False combine (2 * n) l ?mid ql qr s = Some (Inr (lq, s))"
      using node.IH(1) [OF lr] by blast
    obtain rq where R: "query_tree False combine (2 * n + 1) (?mid + 1) r ql qr s = Some (Inr (rq, s))"
      using node.IH(2) [OF lr] by blast
    have unfold: "query_tree False combine n l r ql qr s =
        bindR (query_tree False combine (2 * n) l ?mid ql qr s) (\<lambda>(left_query, s1).
        bindR (query_tree False combine (2 * n + 1) (?mid + 1) r ql qr s1) (\<lambda>(right_query, s2).
        Some (Inr (join_queries combine left_query right_query, s2))))"
      by (subst query_tree.simps) (simp only: bindR_simps partial if_False Let_def s1)
    show ?thesis
      unfolding unfold using L R by (simp add: bindR_simps)
  qed
qed

text \<open>
  Claim C10 (with lazy propagation disabled, \<open>query(pos)\<close> and \<open>query(l, r)\<close> perform no
  mutation: the whole tree state is the same before and after the call). Whatever the
  state and the arguments, a query that returns an answer returns the state it was given;
  and on a tree with the sizes of a constructed one every query with valid indices does
  return, with that same state.
\<close>

theorem nonlazy_query_no_mutation:
  "(\<forall>v s'. query False combine l r s = Some (Inr (v, s')) \<longrightarrow> s' = s) \<and>
   (\<forall>v s'. query_pos False combine i s = Some (Inr (v, s')) \<longrightarrow> s' = s) \<and>
   (well_formed False s \<and> l \<le> r \<and> r < tree_size s
      \<longrightarrow> (\<exists>v. query False combine l r s = Some (Inr (v, s)))) \<and>
   (well_formed False s \<and> i < tree_size s
      \<longrightarrow> (\<exists>v. query_pos False combine i s = Some (Inr (v, s))))"
proof (intro conjI allI impI)
  fix v s'
  assume "query False combine l r s = Some (Inr (v, s'))"
  then show "s' = s"
    by (auto simp: query_def split: if_splits dest: query_tree_nonlazy_same_state)
next
  fix v s'
  assume "query_pos False combine i s = Some (Inr (v, s'))"
  then show "s' = s"
    by (auto simp: query_pos_def split: if_splits dest: query_tree_nonlazy_same_state)
next
  assume a: "well_formed False s \<and> l \<le> r \<and> r < tree_size s"
  then have N: "size_ok (tree_size s)" "length (data s) = 4 * tree_size s + 1"
    by (simp_all add: well_formed_def)
  have N1: "1 \<le> tree_size s" "tree_size s < 2 ^ 64"
    using N(1) by (simp_all add: size_ok_def)
  have e: "sz_sub (tree_size s) 1 = tree_size s - 1"
    by (rule sz_sub_id [OF N1])
  show "\<exists>v. query False combine l r s = Some (Inr (v, s))"
    using a e query_tree_nonlazy_total [OF node_inv_root [OF N1(1)] N, of combine l r]
    by (simp add: query_def)
next
  assume a: "well_formed False s \<and> i < tree_size s"
  then have N: "size_ok (tree_size s)" "length (data s) = 4 * tree_size s + 1"
    by (simp_all add: well_formed_def)
  have N1: "1 \<le> tree_size s" "tree_size s < 2 ^ 64"
    using N(1) by (simp_all add: size_ok_def)
  have e: "sz_sub (tree_size s) 1 = tree_size s - 1"
    by (rule sz_sub_id [OF N1])
  show "\<exists>v. query_pos False combine i s = Some (Inr (v, s))"
    using a e query_tree_nonlazy_total [OF node_inv_root [OF N1(1)] N, of combine i i]
    by (simp add: query_pos_def)
qed

text \<open>Claim C10 at the tree built over \<open>[1, 2]\<close> with sums.\<close>

theorem nonlazy_query_no_mutation_witness:
  "well_formed False
     \<lparr>tree_size = 2, data = [None, Some 3, Some 1, Some (2 :: int), None, None, None, None, None],
      lazyTasks = []\<rparr> \<and>
   query False (+) 0 1
     \<lparr>tree_size = 2, data = [None, Some 3, Some 1, Some (2 :: int), None, None, None, None, None],
      lazyTasks = []\<rparr>
   = Some (Inr (Some 3,
       \<lparr>tree_size = 2, data = [None, Some 3, Some 1, Some (2 :: int), None, None, None, None, None],
        lazyTasks = []\<rparr>)) \<and>
   query_pos False (+) 1
     \<lparr>tree_size = 2, data = [None, Some 3, Some 1, Some (2 :: int), None, None, None, None, None],
      lazyTasks = []\<rparr>
   = Some (Inr (Some 2,
       \<lparr>tree_size = 2, data = [None, Some 3, Some 1, Some (2 :: int), None, None, None, None, None],
        lazyTasks = []\<rparr>))"
  using nonlazy_query_no_mutation
    [of "(+)" 0 1
      "\<lparr>tree_size = 2, data = [None, Some 3, Some 1, Some (2 :: int), None, None, None, None, None],
        lazyTasks = []\<rparr>" 1]
  by (simp add: well_formed_def size_ok_def eval_simps cong: bindR_cong_weak bindE_cong_weak)

section \<open>What an operation leaves untouched\<close>

lemma frame_refl: "frame A s s"
  by (simp add: frame_def)

lemma frame_trans: "frame A s s' \<Longrightarrow> frame B s' s'' \<Longrightarrow> frame (A \<union> B) s s''"
  by (simp add: frame_def)

lemma frame_mono: "frame A s s' \<Longrightarrow> A \<subseteq> B \<Longrightarrow> frame B s s'"
  by (auto simp: frame_def)

lemma frame_sym: "frame A s s' \<Longrightarrow> frame A s' s"
  by (simp add: frame_def)

lemma bindE_eq_InrD:
  assumes "bindE m f = Inr b"
  obtains a where "m = Inr a" "f a = Inr b"
  using assms by (cases m) (simp_all add: bindE_simps)

lemma write_data_frame: "write_data n v s = Inr s' \<Longrightarrow> frame {n} s s'"
  by (auto simp: write_data_def frame_def split: if_splits)

lemma push_task_frame: "push_task i t s = Inr s' \<Longrightarrow> frame {i} s s'"
  by (auto simp: push_task_def frame_def split: if_splits)

lemma run_task_frame:
  assumes "run_task n l r t s = Inr s'"
  shows "frame {n, sz (2 * n), sz (sz (2 * n) + 1)} s s'"
proof (cases t)
  case Monostate
  then show ?thesis using assms by (simp add: frame_refl)
next
  case (PointTask f)
  from assms obtain q s1 s2 where
    "write_data n (Some (f q l)) s = Inr s1"
    "push_task (sz (2 * n)) (PointTask f) s1 = Inr s2"
    "push_task (sz (sz (2 * n) + 1)) (PointTask f) s2 = Inr s'"
    unfolding PointTask run_task.simps by (elim bindE_eq_InrD) blast
  then have "frame ({n} \<union> {sz (2 * n)} \<union> {sz (sz (2 * n) + 1)}) s s'"
    by (intro frame_trans write_data_frame push_task_frame)
  then show ?thesis by (simp add: insert_commute Un_commute)
next
  case (RangeTask g)
  from assms obtain q s1 s2 where
    "write_data n (Some (g q l r)) s = Inr s1"
    "push_task (sz (2 * n)) (RangeTask g) s1 = Inr s2"
    "push_task (sz (sz (2 * n) + 1)) (RangeTask g) s2 = Inr s'"
    unfolding RangeTask run_task.simps by (elim bindE_eq_InrD) blast
  then have "frame ({n} \<union> {sz (2 * n)} \<union> {sz (sz (2 * n) + 1)}) s s'"
    by (intro frame_trans write_data_frame push_task_frame)
  then show ?thesis by (simp add: insert_commute Un_commute)
qed

lemma run_tasks_frame:
  "run_tasks n l r ts s = Inr s' \<Longrightarrow> frame {n, sz (2 * n), sz (sz (2 * n) + 1)} s s'"
proof (induction ts arbitrary: s)
  case Nil
  then show ?case by (simp add: frame_refl)
next
  case (Cons t ts)
  from Cons.prems obtain s1 where s1: "run_task n l r t s = Inr s1" "run_tasks n l r ts s1 = Inr s'"
    unfolding run_tasks.simps by (elim bindE_eq_InrD)
  have "frame ({n, sz (2 * n), sz (sz (2 * n) + 1)} \<union> {n, sz (2 * n), sz (sz (2 * n) + 1)}) s s'"
    by (rule frame_trans [OF run_task_frame [OF s1(1)] Cons.IH [OF s1(2)]])
  then show ?case by simp
qed

lemma pushdown_frame:
  assumes "execute_lazy_tasks_and_pushdown n l r s = Inr s'"
  shows "frame {n, sz (2 * n), sz (sz (2 * n) + 1)} s s'"
    and "n < length (lazyTasks s')" and "lazyTasks s' ! n = []"
proof -
  have n: "n < length (lazyTasks s)"
    using assms by (auto simp: execute_lazy_tasks_and_pushdown_def split: if_splits)
  then obtain s1 where s1: "run_tasks n l r (lazyTasks s ! n) s = Inr s1"
    "s' = s1\<lparr>lazyTasks := (lazyTasks s1)[n := []]\<rparr>"
    using assms unfolding execute_lazy_tasks_and_pushdown_def
    by (auto elim!: bindE_eq_InrD)
  note f = run_tasks_frame [OF s1(1)]
  have "frame {n} s1 s'"
    unfolding s1(2) by (simp add: frame_def)
  from frame_trans [OF f this] show "frame {n, sz (2 * n), sz (sz (2 * n) + 1)} s s'"
    by (simp add: insert_absorb)
  show "n < length (lazyTasks s')" "lazyTasks s' ! n = []"
    using n f unfolding s1(2) by (simp_all add: frame_def)
qed

lemma pushdown_empty:
  assumes "n < length (lazyTasks s)" "lazyTasks s ! n = []"
  shows "execute_lazy_tasks_and_pushdown n l r s = Inr s"
proof -
  have "(lazyTasks s)[n := []] = lazyTasks s"
    using assms(2) by (metis list_update_id)
  then show ?thesis
    using assms by (simp add: execute_lazy_tasks_and_pushdown_def bindE_simps)
qed

section \<open>Repeating a query\<close>

text \<open>
  A query that returns touches the positions of its subtree only, and leaves every
  visited node with an empty queue: run again on the state it returned, or on any state
  that agrees with it on the subtree, it changes nothing and returns the same answer.
  A push-down computes the positions \<open>2n\<close> and \<open>2n + 1\<close> of leaves too, hence the bound
  \<open>8N < 2 ^ 64\<close>.
\<close>

lemma query_tree_lazy_idem:
  assumes inv: "node_inv N n l r" and N: "8 * N < 2 ^ 64"
  shows "query_tree True combine n l r ql qr s = Some (Inr (v, s1)) \<Longrightarrow>
    frame (subtree n) s s1 \<and>
    (\<forall>t. frame (- subtree n) s1 t \<longrightarrow> query_tree True combine n l r ql qr t = Some (Inr (v, t)))"
  using inv
proof (induction n l r arbitrary: s v s1 rule: node_inv_induct)
  case (node n l r)
  have inv: "l \<le> r" "r < N" "1 \<le> n" "n < 4 * N"
    using node.hyps unfolding node_inv_def by blast+
  have szn: "sz (2 * n) = 2 * n" "sz (2 * n + 1) = 2 * n + 1"
    using inv N by (simp_all add: sz_id)
  have sub: "{n, 2 * n, 2 * n + 1} \<subseteq> subtree n"
    using subtree_self [of n] subtree_self [of "2 * n"] subtree_self [of "2 * n + 1"]
      subtree_left [of n] subtree_right [of n] by blast
  define rest where "rest = (\<lambda>s0. if l > qr \<or> r < ql then Some (Inr (None, s0))
       else if ql \<le> l \<and> r \<le> qr
         then Some (bindE (read_data n s0) (\<lambda>d. Inr (d, s0)))
       else
         let mid = sz (l + r) div 2 in
         bindR (query_tree True combine (sz (2 * n)) l mid ql qr s0) (\<lambda>(left_query, s1).
         bindR (query_tree True combine (sz (sz (2 * n) + 1)) (sz (mid + 1)) r ql qr s1)
           (\<lambda>(right_query, s2).
         Some (Inr (join_queries combine left_query right_query, s2)))))"
  have unfold: "query_tree True combine n l r ql qr s
      = bindR (Some (execute_lazy_tasks_and_pushdown n l r s)) rest" for s
    unfolding rest_def by (subst query_tree.simps) simp
  from node.prems obtain s0 where s0: "execute_lazy_tasks_and_pushdown n l r s = Inr s0"
    "rest s0 = Some (Inr (v, s1))"
    unfolding unfold by (elim bindR_eq_InrD) simp
  have f0: "frame (subtree n) s s0"
    using pushdown_frame(1) [OF s0(1)] sub unfolding szn by (rule frame_mono)
  have e0: "n < length (lazyTasks s0)" "lazyTasks s0 ! n = []"
    using pushdown_frame(2,3) [OF s0(1)] by simp_all
  have push_t: "query_tree True combine n l r ql qr t = rest t"
    if "frame (- subtree n) s1 t" "n < length (lazyTasks s1)" "lazyTasks s1 ! n = []" for t
  proof -
    have "n < length (lazyTasks t)" "lazyTasks t ! n = []"
      using that subtree_self [of n] by (auto simp: frame_def)
    then show ?thesis
      unfolding unfold by (simp add: pushdown_empty bindR_simps)
  qed
  consider (outside) "l > qr \<or> r < ql"
    | (inside) "\<not> (l > qr \<or> r < ql)" "ql \<le> l \<and> r \<le> qr"
    | (partial) "\<not> (l > qr \<or> r < ql)" "\<not> (ql \<le> l \<and> r \<le> qr)"
    by blast
  then show ?case
  proof cases
    case outside
    then have r: "v = None" "s1 = s0" "\<And>t. rest t = Some (Inr (None, t))"
      using s0(2) by (simp_all add: rest_def)
    show ?thesis
      using f0 push_t e0 r by auto
  next
    case inside
    then have rest_eq: "rest t = Some (bindE (read_data n t) (\<lambda>d. Inr (d, t)))" for t
      by (simp add: rest_def)
    from s0(2) have r: "n < length (data s0)" "v = data s0 ! n" "s1 = s0"
      unfolding rest_eq by (auto simp: read_data_def bindE_simps split: if_splits)
    have "rest t = Some (Inr (v, t))" if "frame (- subtree n) s1 t" for t
    proof -
      have "n < length (data t)" "data t ! n = data s0 ! n"
        using that r subtree_self [of n] by (auto simp: frame_def)
      then show ?thesis
        unfolding rest_eq using r by (simp add: read_data_def bindE_simps)
    qed
    then show ?thesis
      using f0 push_t e0 r by auto
  next
    case partial
    then have lr: "l < r" using inv by linarith
    let ?mid = "(l + r) div 2"
    have szm: "sz (l + r) div 2 = ?mid" "sz (?mid + 1) = ?mid + 1"
      using inv N lr by (simp_all add: sz_id)
    have rest_eq: "rest t =
        bindR (query_tree True combine (2 * n) l ?mid ql qr t) (\<lambda>(left_query, s1).
        bindR (query_tree True combine (2 * n + 1) (?mid + 1) r ql qr s1) (\<lambda>(right_query, s2).
        Some (Inr (join_queries combine left_query right_query, s2))))" for t
      unfolding rest_def by (simp only: partial if_False Let_def szn szm)
    from s0(2) obtain a where a: "query_tree True combine (2 * n) l ?mid ql qr s0 = Some (Inr a)"
      "(case a of (left_query, s1') \<Rightarrow>
        bindR (query_tree True combine (2 * n + 1) (?mid + 1) r ql qr s1') (\<lambda>(right_query, s2).
        Some (Inr (join_queries combine left_query right_query, s2)))) = Some (Inr (v, s1))"
      unfolding rest_eq by (rule bindR_eq_InrD)
    obtain lq sa where a_eq: "a = (lq, sa)" by (cases a)
    from a(2) obtain b where b: "query_tree True combine (2 * n + 1) (?mid + 1) r ql qr sa = Some (Inr b)"
      "(case b of (right_query, s2) \<Rightarrow> Some (Inr (join_queries combine lq right_query, s2)))
        = Some (Inr (v, s1))"
      unfolding a_eq by (auto elim: bindR_eq_InrD)
    obtain rq sb where b_eq: "b = (rq, sb)" by (cases b)
    have v: "v = join_queries combine lq rq" "s1 = sb"
      using b(2) b_eq by simp_all
    note L = node.IH(1) [OF lr a(1) [unfolded a_eq]]
    note R = node.IH(2) [OF lr b(1) [unfolded b_eq]]
    have fL: "frame (subtree (2 * n)) s0 sa" and fR: "frame (subtree (2 * n + 1)) sa sb"
      using L R by simp_all
    have fLR: "frame (subtree (2 * n) \<union> subtree (2 * n + 1)) s0 s1"
      using frame_trans [OF fL fR] unfolding v(2) .
    have f01: "frame (subtree n) s0 s1"
      using fLR subtree_left [of n] subtree_right [of n]
      by (auto intro: frame_mono)
    have "n \<notin> subtree (2 * n) \<union> subtree (2 * n + 1)"
      using subtree_not_parent_left [OF inv(3)] subtree_not_parent_right [of n] by simp
    then have e1: "n < length (lazyTasks s1)" "lazyTasks s1 ! n = []"
      using fLR e0 by (auto simp: frame_def)
    have f: "frame (subtree n) s s1"
      using frame_trans [OF f0 f01] by simp
    have idem: "rest t = Some (Inr (v, t))" if t: "frame (- subtree n) s1 t" for t
    proof -
      have disj: "subtree (2 * n) \<inter> subtree (2 * n + 1) = {}"
        by (rule subtree_disjoint [OF inv(3)])
      have "frame (subtree (2 * n + 1) \<union> - subtree n) sa t"
        using frame_trans [OF fR t [unfolded v(2)]] .
      then have "frame (- subtree (2 * n)) sa t"
        using disj subtree_left [of n] by (auto intro: frame_mono)
      then have qL: "query_tree True combine (2 * n) l ?mid ql qr t = Some (Inr (lq, t))"
        using L by blast
      have "frame (- subtree (2 * n + 1)) sb t"
        using t [unfolded v(2)] subtree_right [of n] by (auto intro: frame_mono)
      then have qR: "query_tree True combine (2 * n + 1) (?mid + 1) r ql qr t = Some (Inr (rq, t))"
        using R by blast
      show ?thesis
        unfolding rest_eq using qL qR v(1) by (simp add: bindR_simps)
    qed
    show ?thesis
      using f push_t [OF _ e1] idem by auto
  qed
qed

text \<open>
  A query that returns, repeated. For every state of a tree with \<open>8N < 2 ^ 64\<close>, lazy or
  not: when a call of \<open>query(l, r)\<close> returns an answer and a state, the same call on that
  state returns the same answer and leaves the state as it is.
\<close>

lemma query_repeated_after_return:
  assumes "8 * tree_size s < 2 ^ 64"
    and "query LazyPropogation combine l r s = Some (Inr (v, s1))"
  shows "query LazyPropogation combine l r s1 = Some (Inr (v, s1))"
proof -
  have valid: "l \<le> r" "r < tree_size s"
    using assms(2) by (auto simp: query_def split: if_splits)
  then have run: "query_tree LazyPropogation combine 1 0 (sz_sub (tree_size s) 1) l r s
      = Some (Inr (v, s1))"
    using assms(2) by (simp add: query_def)
  have N: "1 \<le> tree_size s" "tree_size s < 2 ^ 64"
    using valid assms(1) by linarith+
  have e: "sz_sub (tree_size s) 1 = tree_size s - 1"
    by (rule sz_sub_id [OF N])
  show ?thesis
  proof (cases LazyPropogation)
    case False
    then have "s1 = s"
      using run by (auto dest: query_tree_nonlazy_same_state)
    then show ?thesis using assms(2) by simp
  next
    case True
    have run': "query_tree True combine 1 0 (tree_size s - 1) l r s = Some (Inr (v, s1))"
      using run True e by simp
    note idem = query_tree_lazy_idem [OF node_inv_root [OF N(1)] assms(1) run']
    have size: "tree_size s1 = tree_size s"
      using idem by (simp add: frame_def)
    have "query_tree True combine 1 0 (tree_size s - 1) l r s1 = Some (Inr (v, s1))"
      using idem frame_refl by blast
    then show ?thesis
      using valid True e size by (simp add: query_def)
  qed
qed

text \<open>
  Claim C9 (for every tree state and every valid range, two calls of \<open>query(l, r)\<close> in
  succession, with no update between them, return identical results, although the first
  may push tasks down). The first call need not return. For \<open>N = 6\<close> both vectors have
  25 entries; after the point update at position 4 the task waits at node 13, the leaf of
  that position. \<open>query(4, 4)\<close> and \<open>query(4, 5)\<close> both descend to node 13 and push it down,
  which appends to the queue at index 26.
\<close>

theorem range_query_leaves_capacity:
  "bindR (SegmentTree_vector True id (+) [1, 2, 3, 4, 5, 6 :: int]) (\<lambda>s.
   bindR (update_pos True (+) (PointUpdater (\<lambda>q l. q + 10)) 4 s) (\<lambda>s1.
   Some (Inr (map_option (map_sum id fst) (query True (+) 4 4 s1),
              map_option (map_sum id fst) (query True (+) 4 5 s1)))))
   = Some (Inr (Some (Inl OutOfBounds), Some (Inl OutOfBounds)))"
  by (simp add: eval_simps cong: bindR_cong_weak bindE_cong_weak)

section \<open>The value of a subtree once every task is pushed down\<close>

lemmas spec_simps = flush.simps subtree_combine.simps tree_nodes.simps true_combine_def

lemma flush_clean:
  assumes inv: "node_inv N n l r" and len: "length (lazyTasks s) = 4 * N + 1"
    and q: "queues_empty s"
  shows "flush n l r s = Inr s"
  using inv
proof (induction n l r rule: node_inv_induct)
  case (node n l r)
  have "n < 4 * N"
    using node.hyps unfolding node_inv_def by blast
  then have push: "execute_lazy_tasks_and_pushdown n l r s = Inr s"
    using len q by (intro pushdown_clean) simp_all
  show ?case
  proof (cases "l < r")
    case True
    show ?thesis
      using True node.IH(1) [OF True] node.IH(2) [OF True]
      by (subst flush.simps) (simp add: push bindE_simps)
  next
    case False
    then show ?thesis
      by (subst flush.simps) (simp add: push bindE_simps)
  qed
qed

lemma subtree_combine_ok:
  "tree_ok lift combine xs (data s) n l r
   \<Longrightarrow> subtree_combine combine n l r s = Some (tree_value lift combine xs l r)"
proof (induction "r - l" arbitrary: n l r rule: less_induct)
  case less
  have ok: "n < length (data s)" "data s ! n = Some (tree_value lift combine xs l r)"
    using less.prems by (subst (asm) tree_ok.simps, simp)+
  show ?case
  proof (cases "l < r")
    case True
    let ?mid = "(l + r) div 2"
    have okc: "tree_ok lift combine xs (data s) (2 * n) l ?mid"
      "tree_ok lift combine xs (data s) (2 * n + 1) (?mid + 1) r"
      using less.prems True by (subst (asm) tree_ok.simps, simp)+
    have L: "subtree_combine combine (2 * n) l ?mid s = Some (tree_value lift combine xs l ?mid)"
      by (rule less.hyps [OF _ okc(1)]) (use True in linarith)
    have R: "subtree_combine combine (2 * n + 1) (?mid + 1) r s
             = Some (tree_value lift combine xs (?mid + 1) r)"
      by (rule less.hyps [OF _ okc(2)]) (use True in linarith)
    have val: "tree_value lift combine xs l r
               = combine (tree_value lift combine xs l ?mid) (tree_value lift combine xs (?mid + 1) r)"
      using True by (subst tree_value.simps) simp
    show ?thesis
      using True L R val by (subst subtree_combine.simps) simp
  next
    case False
    then show ?thesis
      using ok by (subst subtree_combine.simps) simp
  qed
qed

lemma nodes_current:
  assumes inv: "node_inv N n l r" and len: "length (lazyTasks s) = 4 * N + 1"
    and q: "queues_empty s" and fl: "flush 1 0 (tree_size s - 1) s = Inr s"
  shows "tree_ok lift combine xs (data s) n l r \<Longrightarrow>
    list_all (\<lambda>(n, l, r). lazyTasks s ! n = [] \<and> node_current combine s (n, l, r))
      (tree_nodes n l r)"
  using inv
proof (induction n l r rule: node_inv_induct)
  case (node n l r)
  have "n < 4 * N"
    using node.hyps unfolding node_inv_def by blast
  then have e: "lazyTasks s ! n = []"
    using len q by (simp add: queues_empty_def list_all_length)
  have ok: "n < length (data s)" "data s ! n = Some (tree_value lift combine xs l r)"
    using node.prems by (subst (asm) tree_ok.simps, simp)+
  have "true_combine combine s n l r = Some (tree_value lift combine xs l r)"
    using subtree_combine_ok [OF node.prems] fl by (simp add: true_combine_def)
  then have here: "lazyTasks s ! n = [] \<and> node_current combine s (n, l, r)"
    using e ok by (simp add: node_current_def)
  show ?case
  proof (cases "l < r")
    case True
    have okc: "tree_ok lift combine xs (data s) (2 * n) l ((l + r) div 2)"
      "tree_ok lift combine xs (data s) (2 * n + 1) ((l + r) div 2 + 1) r"
      using node.prems True by (subst (asm) tree_ok.simps, simp)+
    show ?thesis
      using here True node.IH(1) [OF True okc(1)] node.IH(2) [OF True okc(2)]
      by (subst tree_nodes.simps) simp
  next
    case False
    then show ?thesis
      using here by (subst tree_nodes.simps) simp
  qed
qed

text \<open>
  On a lazy tree built from a non-empty input, before the first update (after any sequence
  of valid queries, which leave the tree as built), every node has an empty queue and
  holds the true combine of its subtree.
\<close>

lemma lazy_invariant_before_updates:
  assumes "size_ok (length xs)" "list_all (valid_query (length xs)) ops"
  shows "\<exists>s vs. SegmentTree_vector True lift combine xs = Some (Inr s) \<and>
    run_ops True combine ops s = Some (Inr (vs, s)) \<and>
    lazy_invariant combine s \<and>
    list_all (\<lambda>(n, l, r). lazyTasks s ! n = [] \<and> node_current combine s (n, l, r))
      (tree_nodes 1 0 (tree_size s - 1))"
proof -
  obtain s where s: "SegmentTree_vector True lift combine xs = Some (Inr s)"
    "built_from True lift combine xs s"
    using SegmentTree_vector_correct [OF assms(1)] by blast
  have N: "1 \<le> length xs"
    using assms(1) by (simp add: size_ok_def)
  have size: "tree_size s = length xs" and len: "length (lazyTasks s) = 4 * length xs + 1"
    and ok: "tree_ok lift combine xs (data s) 1 0 (length xs - 1)"
    using s(2) by (simp_all add: built_from_def)
  have q: "queues_empty s"
    using built_from_clean [OF s(2)] by (simp add: clean_def)
  have fl: "flush 1 0 (tree_size s - 1) s = Inr s"
    unfolding size by (rule flush_clean [OF node_inv_root [OF N] len q])
  have all: "list_all (\<lambda>(n, l, r). lazyTasks s ! n = [] \<and> node_current combine s (n, l, r))
      (tree_nodes 1 0 (tree_size s - 1))"
    unfolding size by (rule nodes_current [OF node_inv_root [OF N] len q fl ok])
  then have "lazy_invariant combine s"
    unfolding lazy_invariant_def by (auto simp: list_all_iff)
  then show ?thesis
    using s(1) run_ops_fresh [OF assms(1) s(2) assms(2)] all by blast
qed

text \<open>
  Claim C3 (between public operations on a lazy tree, every node whose queue is empty
  holds the true combine of its subtree as it would be after all pending tasks above or
  below were pushed down and applied). Over \<open>[1, 2]\<close> with sums, the point update
  "add 10" at position 0 queues its task at node 2, the leaf of that position, without
  applying it, and on the way back recombines the root from the values its children hold,
  1 and 2. When the update has returned, the queues of the nodes 1, 2 and 3 have the
  lengths 0, 1 and 0: the root has an empty queue and no node above it, and it holds 3,
  while the combine of the leaves once the task at node 2 is pushed down is 13.
\<close>

theorem lazy_update_leaves_root_stale:
  "bindR (SegmentTree_vector True id (+) [1, 2 :: int]) (\<lambda>s.
   bindR (update_pos True (+) (PointUpdater (\<lambda>q l. q + 10)) 0 s) (\<lambda>s1.
   Some (Inr (map (\<lambda>n. length (lazyTasks s1 ! n)) [1, 2, 3], data s1 ! 1,
              true_combine (+) s1 1 0 1, node_current (+) s1 (1, 0, 1),
              lazy_invariant (+) s1))))
   = Some (Inr ([0, 1, 0], Some 3, Some 13, False, False))"
  by (simp add: eval_simps spec_simps lazy_invariant_def node_current_def
      cong: bindR_cong_weak bindE_cong_weak)

section \<open>A query after an update elsewhere\<close>

text \<open>
  Claim C8 (after a valid update of \<open>[l, r]\<close>, \<open>query(i)\<close> for an index outside \<open>[l, r]\<close>
  returns the value it returned immediately before the update). For \<open>N = 6\<close> the
  positions 3 and 4 are the leaves at the nodes 12 and 13, children of node 6. The query
  of position 3 answers 4; the point update at position 4 queues its task at node 13;
  the query of position 3 then visits node 13 too and pushes it down before it compares
  the ranges, which appends to the queue at index 26 of 25.
\<close>

theorem query_after_update_fails:
  "bindR (SegmentTree_vector True id (+) [1, 2, 3, 4, 5, 6 :: int]) (\<lambda>s.
   bindR (query_pos True (+) 3 s) (\<lambda>(before, s1).
   bindR (update_pos True (+) (PointUpdater (\<lambda>q l. q + 10)) 4 s1) (\<lambda>s2.
   Some (Inr (before, map_option (map_sum id fst) (query_pos True (+) 3 s2))))))
   = Some (Inr (Some 4, Some (Inl OutOfBounds)))"
  by (simp add: eval_simps cong: bindR_cong_weak bindE_cong_weak)

section \<open>Construction from a size\<close>

lemma tree_ok_build_post:
  "tree_ok lift combine xs d n l r \<Longrightarrow> build_post lift combine xs d n l r"
proof (induction "r - l" arbitrary: n l r rule: less_induct)
  case less
  have ok: "n < length d" "d ! n = Some (tree_value lift combine xs l r)"
    using less.prems by (subst (asm) tree_ok.simps, simp)+
  show ?case
  proof (cases "l < r")
    case True
    let ?mid = "(l + r) div 2"
    have okc: "tree_ok lift combine xs d (2 * n) l ?mid"
      "tree_ok lift combine xs d (2 * n + 1) (?mid + 1) r"
      using less.prems True by (subst (asm) tree_ok.simps, simp)+
    have L: "build_post lift combine xs d (2 * n) l ?mid"
      by (rule less.hyps [OF _ okc(1)]) (use True in linarith)
    have R: "build_post lift combine xs d (2 * n + 1) (?mid + 1) r"
      by (rule less.hyps [OF _ okc(2)]) (use True in linarith)
    have cL: "d ! (2 * n) = Some (tree_value lift combine xs l ?mid)"
      using okc(1) by (subst (asm) tree_ok.simps) simp
    have cR: "2 * n + 1 < length d"
      "d ! (2 * n + 1) = Some (tree_value lift combine xs (?mid + 1) r)"
      using okc(2) by (subst (asm) tree_ok.simps, simp)+
    note c = cL cR
    have val: "tree_value lift combine xs l r
               = combine (tree_value lift combine xs l ?mid) (tree_value lift combine xs (?mid + 1) r)"
      using True by (subst tree_value.simps) simp
    show ?thesis
      using True L R c ok val by (subst build_post.simps) simp
  next
    case False
    have "tree_value lift combine xs l r = lift (xs ! l)"
      using False by (subst tree_value.simps) simp
    then show ?thesis
      using False ok by (subst build_post.simps) simp
  qed
qed

text \<open>
  Claim C6 (for every \<open>N \<ge> 0\<close>, \<^verbatim>\<open>construct(size)\<close> runs to completion and yields a tree of
  \<open>N\<close> default-valued elements for which the build postcondition holds). For \<open>N = 0\<close> the
  constructor builds over \<open>[0, size - 1] = [0, 2 ^ 64 - 1]\<close>: the recursion descends
  along the left children to the range \<open>[0, 0]\<close> and reads element 0 of the empty input
  vector.
\<close>

theorem construct_size_zero_counterexample:
  "SegmentTree_size True (id :: int \<Rightarrow> int) (+) 0 = Some (Inl OutOfBounds) \<and>
   SegmentTree_size False (id :: int \<Rightarrow> int) (+) 0 = Some (Inl OutOfBounds)"
  by (simp add: SegmentTree_size_def construct_def sz_sub_def
        build_tree_empty_input [of 64, simplified])

text \<open>
  Claim C6 as amended: for every \<open>N \<ge> 1\<close> whose capacity \<open>4N + 1\<close> is a \<^verbatim>\<open>size_t\<close>,
  \<^verbatim>\<open>construct(size)\<close> runs to completion and yields a tree of size \<open>N\<close> with \<open>4N + 1\<close>
  node entries (and as many empty queues under lazy propagation) for which the build
  postcondition holds over \<open>N\<close> copies of the default value.
\<close>

theorem construct_size_builds:
  assumes "size_ok N"
  shows "\<exists>s. SegmentTree_size LazyPropogation lift combine N = Some (Inr s) \<and>
    tree_size s = N \<and> length (data s) = 4 * N + 1 \<and>
    lazyTasks s = (if LazyPropogation then replicate (4 * N + 1) [] else []) \<and>
    build_post lift combine (replicate N 0) (data s) 1 0 (N - 1)"
proof -
  obtain d where d: "construct LazyPropogation lift combine N (replicate N 0)
           = Some (Inr \<lparr>tree_size = N, data = d,
                lazyTasks = (if LazyPropogation then replicate (4 * N + 1) [] else [])\<rparr>)"
    "length d = 4 * N + 1" "tree_ok lift combine (replicate N 0) d 1 0 (N - 1)"
    using construct_correct [OF assms, of "replicate N 0" LazyPropogation lift combine] by auto
  let ?s = "\<lparr>tree_size = N, data = d,
              lazyTasks = (if LazyPropogation then replicate (4 * N + 1) [] else [])\<rparr>"
  have "SegmentTree_size LazyPropogation lift combine N = Some (Inr ?s)"
    unfolding SegmentTree_size_def by (rule d(1))
  moreover have "build_post lift combine (replicate N 0) (data ?s) 1 0 (N - 1)"
    using tree_ok_build_post [OF d(3)] by simp
  moreover have "tree_size ?s = N" "length (data ?s) = 4 * N + 1"
    "lazyTasks ?s = (if LazyPropogation then replicate (4 * N + 1) [] else [])"
    using d(2) by simp_all
  ultimately show ?thesis
    by blast
qed

text \<open>The amended claim C6 at \<open>N = 3\<close>, with the lift \<open>b + 1\<close> and sums.\<close>

theorem construct_size_builds_witness:
  "size_ok 3 \<and>
   (\<exists>s. SegmentTree_size True (\<lambda>b :: int. b + 1) (+) 3 = Some (Inr s) \<and>
      tree_size s = 3 \<and> length (data s) = 4 * 3 + 1 \<and>
      lazyTasks s = (if True then replicate (4 * 3 + 1) [] else []) \<and>
      build_post (\<lambda>b :: int. b + 1) (+) (replicate 3 0) (data s) 1 0 (3 - 1))"
proof -
  have h: "size_ok 3"
    by (simp add: size_ok_def)
  show ?thesis
    by (rule conjI [OF h construct_size_builds [OF h]])
qed

end
